theory Spec2Isabelle
  imports Complex_Main "HOL-Library.Product_Lexorder"
begin

section \<open>Configuration constants (core/manager.py, \<open>CONFIG\<close>)\<close>

definition MAX_CONSECUTIVE_FAILURES :: int where "MAX_CONSECUTIVE_FAILURES = 5"
definition COOLDOWN_TRANSIENT :: int where "COOLDOWN_TRANSIENT = 60 * 1000"
definition COOLDOWN_QUOTA :: int where "COOLDOWN_QUOTA = 5 * 60 * 1000"
definition COOLDOWN_QUOTA_DAILY :: int where "COOLDOWN_QUOTA_DAILY = 60 * 60 * 1000"
definition HALF_OPEN_TEST_DELAY :: int where "HALF_OPEN_TEST_DELAY = 60 * 1000"
definition MAX_BACKOFF :: int where "MAX_BACKOFF = 64 * 1000"
definition BASE_BACKOFF :: int where "BASE_BACKOFF = 1000"

section \<open>Data model (core/types.py)\<close>

datatype CircuitState = CLOSED | OPEN | HALF_OPEN | DEAD

datatype ErrorType =
  QUOTA | TRANSIENT | AUTH | BAD_REQUEST | SAFETY | RECITATION | TIMEOUT | UNKNOWN

text \<open>The field \<open>type\<close> of the source is called \<open>etype\<close> here.\<close>

record ErrorClassification =
  etype :: ErrorType
  retryable :: bool
  cooldownMs :: int
  markKeyFailed :: bool
  markKeyDead :: bool

text \<open>
  Python floats (\<open>weight\<close>, \<open>averageLatency\<close>, \<open>totalLatency\<close>) are modelled as reals;
  \<open>Optional[int]\<close> as \<open>int option\<close>.
\<close>

record KeyState =
  key :: string
  failCount :: int
  failedAt :: "int option"
  isQuotaError :: bool
  circuitState :: CircuitState
  lastUsed :: int
  successCount :: int
  totalRequests :: int
  halfOpenTestTime :: "int option"
  customCooldown :: "int option"
  weight :: real
  averageLatency :: real
  totalLatency :: real
  latencySamples :: int
  provider :: string

record ExecuteOptions =
  timeoutMs :: "int option"
  maxRetries :: int
  finishReason :: "string option"
  opt_provider :: "string option"
  prompt :: "string option"

record CacheEntry =
  ce_vector :: "real list"
  ce_prompt :: string
  ce_response :: string
  ce_timestamp :: int

text \<open>The defaults of the pydantic models.\<close>

definition new_KeyState :: "string \<Rightarrow> real \<Rightarrow> string \<Rightarrow> KeyState" where
  "new_KeyState k w p =
     \<lparr> key = k, failCount = 0, failedAt = None, isQuotaError = False,
       circuitState = CLOSED, lastUsed = 0, successCount = 0, totalRequests = 0,
       halfOpenTestTime = None, customCooldown = None, weight = w,
       averageLatency = 0, totalLatency = 0, latencySamples = 0, provider = p \<rparr>"

definition default_ExecuteOptions :: ExecuteOptions where
  "default_ExecuteOptions =
     \<lparr> timeoutMs = None, maxRetries = 0, finishReason = None,
       opt_provider = None, prompt = None \<rparr>"

text \<open>Python truthiness of an \<open>Optional[int]\<close> and of an \<open>Optional[str]\<close>.\<close>

definition truthy :: "int option \<Rightarrow> bool" where
  "truthy x = (case x of None \<Rightarrow> False | Some v \<Rightarrow> v \<noteq> 0)"

definition truthy_str :: "string option \<Rightarrow> bool" where
  "truthy_str x = (case x of None \<Rightarrow> False | Some s \<Rightarrow> s \<noteq> [])"

section \<open>Raised errors\<close>

text \<open>
  An exception object as far as \<open>classify_error\<close> looks at it: its \<open>str()\<close>, the
  attributes \<open>status_code\<close> and \<open>status\<close>, a truthy \<open>response\<close> with its
  \<open>status_code\<close>, and its class. An attribute value is an integer or \<open>None\<close>, where
  \<open>None\<close> also stands for any value that compares unequal to every integer. Messages
  are strings of code points below 256.
\<close>

datatype 'a Attr = Missing | Has 'a

datatype ExnClass = OtherException | ManagerTimeoutError | AsyncioTimeoutError

record PyError =
  message :: string
  status_code :: "int option Attr"
  status :: "int option Attr"
  response :: "int option option"
  exn_class :: ExnClass

text \<open>What \<open>execute\<close> raises to its caller.\<close>

datatype Exn =
  BulkheadRejectionError
| AllKeysExhaustedError
| RaiseNoneTypeError
| Err PyError

datatype Outcome = Returns string | Raises PyError

datatype Result = Return string | Raise Exn

section \<open>Strings and the compiled patterns (\<open>ERROR_PATTERNS\<close>)\<close>

definition ascii_lower :: "char \<Rightarrow> char" where
  "ascii_lower c =
     (let n = (of_char c :: nat) in if 65 \<le> n \<and> n \<le> 90 then char_of (n + 32) else c)"

definition lower :: "string \<Rightarrow> string" where
  "lower s = map ascii_lower s"

fun starts_with :: "string \<Rightarrow> string \<Rightarrow> bool" where
  "starts_with s [] = True"
| "starts_with [] (p # ps) = False"
| "starts_with (c # cs) (p # ps) = (c = p \<and> starts_with cs ps)"

text \<open>Python's \<open>needle in hay\<close> on strings.\<close>

fun str_in :: "string \<Rightarrow> string \<Rightarrow> bool" where
  "str_in needle [] = starts_with [] needle"
| "str_in needle (c # cs) = (starts_with (c # cs) needle \<or> str_in needle cs)"

text \<open>
  The patterns of the source use three constructs only: literal characters, the
  optional wildcard \<open>.?\<close> and the alternation \<open>|\<close>. They are compiled from the source
  text by \<open>re_compile\<close>.
\<close>

datatype Tok = Lit char | OptAny

fun parse_alt :: "string \<Rightarrow> Tok list" where
  "parse_alt [] = []"
| "parse_alt (c # cs) =
     (case cs of
        [] \<Rightarrow> [Lit c]
      | d # ds \<Rightarrow>
          if c = CHR ''.'' \<and> d = CHR ''?'' then OptAny # parse_alt ds
          else Lit c # parse_alt (d # ds))"

fun split_bar :: "string \<Rightarrow> string \<Rightarrow> string list" where
  "split_bar acc [] = [rev acc]"
| "split_bar acc (c # cs) =
     (if c = CHR ''|'' then rev acc # split_bar [] cs else split_bar (c # acc) cs)"

definition re_compile :: "string \<Rightarrow> Tok list list" where
  "re_compile src = map parse_alt (split_bar [] src)"

text \<open>
  Matching at the start of the subject, with \<open>re.IGNORECASE\<close>; the dot does not match
  a newline.
\<close>

fun match_here :: "Tok list \<Rightarrow> string \<Rightarrow> bool" where
  "match_here [] s = True"
| "match_here (Lit c # ts) s =
     (case s of [] \<Rightarrow> False
      | x # xs \<Rightarrow> ascii_lower x = ascii_lower c \<and> match_here ts xs)"
| "match_here (OptAny # ts) s =
     ((case s of [] \<Rightarrow> False | x # xs \<Rightarrow> x \<noteq> CHR 0x0A \<and> match_here ts xs)
      \<or> match_here ts s)"

text \<open>\<open>pattern.search(s)\<close> as a truth value: some alternative matches at some position.\<close>

fun re_search :: "Tok list list \<Rightarrow> string \<Rightarrow> bool" where
  "re_search alts [] = list_ex (\<lambda>a. match_here a []) alts"
| "re_search alts (c # cs) =
     (list_ex (\<lambda>a. match_here a (c # cs)) alts \<or> re_search alts cs)"

definition isQuotaError_re :: "Tok list list" where
  "isQuotaError_re =
     re_compile ''429|quota|exhausted|resource.?exhausted|too.?many.?requests|rate.?limit''"

definition isAuthError_re :: "Tok list list" where
  "isAuthError_re =
     re_compile ''403|permission.?denied|invalid.?api.?key|unauthorized|unauthenticated''"

definition isSafetyBlock_re :: "Tok list list" where
  "isSafetyBlock_re = re_compile ''safety|blocked|recitation|harmful''"

definition isTransient_re :: "Tok list list" where
  "isTransient_re =
     re_compile ''500|502|503|504|internal|unavailable|deadline|timeout|overloaded''"

definition isBadRequest_re :: "Tok list list" where
  "isBadRequest_re =
     re_compile ''400|invalid.?argument|failed.?precondition|malformed|not.?found|404''"

section \<open>The error classifier (\<open>ApiKeyManager.classify_error\<close>)\<close>

text \<open>
  \<open>status = getattr(error, 'status_code', getattr(error, 'status', None))\<close>, replaced
  by \<open>error.response.status_code\<close> when the error has a truthy \<open>response\<close>.
\<close>

definition resolve_status :: "PyError \<Rightarrow> int option" where
  "resolve_status error =
     (let status = (case status_code error of
                      Has v \<Rightarrow> v
                    | Missing \<Rightarrow> (case status error of Has v \<Rightarrow> v | Missing \<Rightarrow> None))
      in case response error of Some rs \<Rightarrow> rs | None \<Rightarrow> status)"

definition classify_error :: "PyError \<Rightarrow> string option \<Rightarrow> ErrorClassification" where
  "classify_error error finish_reason =
     (let error_str = message error;
          status = resolve_status error
      in
      if finish_reason = Some ''SAFETY'' then
        \<lparr> etype = SAFETY, retryable = False, cooldownMs = 0,
          markKeyFailed = False, markKeyDead = False \<rparr>
      else if finish_reason = Some ''RECITATION'' then
        \<lparr> etype = RECITATION, retryable = False, cooldownMs = 0,
          markKeyFailed = False, markKeyDead = False \<rparr>
      else if exn_class error = ManagerTimeoutError \<or> str_in ''timeout'' (lower error_str) then
        \<lparr> etype = TIMEOUT, retryable = True, cooldownMs = COOLDOWN_TRANSIENT,
          markKeyFailed = True, markKeyDead = False \<rparr>
      else if status = Some 403 \<or> re_search isAuthError_re error_str then
        \<lparr> etype = AUTH, retryable = False, cooldownMs = 999999999,
          markKeyFailed = True, markKeyDead = True \<rparr>
      else if status = Some 429 \<or> re_search isQuotaError_re error_str then
        \<lparr> etype = QUOTA, retryable = True, cooldownMs = COOLDOWN_QUOTA,
          markKeyFailed = True, markKeyDead = False \<rparr>
      else if status = Some 400 \<or> re_search isBadRequest_re error_str then
        \<lparr> etype = BAD_REQUEST, retryable = False, cooldownMs = 0,
          markKeyFailed = False, markKeyDead = False \<rparr>
      else if status \<in> set (map Some [500, 502, 503, 504]) \<or> re_search isTransient_re error_str then
        \<lparr> etype = TRANSIENT, retryable = True, cooldownMs = COOLDOWN_TRANSIENT,
          markKeyFailed = True, markKeyDead = False \<rparr>
      else
        \<lparr> etype = UNKNOWN, retryable = True, cooldownMs = COOLDOWN_TRANSIENT,
          markKeyFailed = True, markKeyDead = False \<rparr>)"

section \<open>The manager's state and its collaborators\<close>

datatype Event =
  CircuitOpen string
| CircuitHalfOpen string
| KeyDead string
| KeyRecovered string
| AllKeysExhausted
| BulkheadRejected
| Retry string int real
| Fallback string
| ExecuteSuccess string int
| ExecuteFailed string PyError

text \<open>The calls the manager makes to user-supplied code, and its sleeps, in order.\<close>

datatype Call = FnCall string | FallbackCall | EmbeddingCall string | SleepCall real

text \<open>\<open>concurrency: int = float('inf')\<close>.\<close>

datatype Limit = Finite int | Infinite

record SemanticCache =
  entries :: "CacheEntry list"
  threshold :: real
  ttl_ms :: int

text \<open>
  The attributes of an \<open>ApiKeyManager\<close> that its operations read or change, and
  the history of one run: \<open>ticks\<close> counts the readings of the clock, \<open>draws\<close> the
  calls of \<open>random.uniform\<close>, \<open>events\<close> lists what \<open>_emit\<close> was called with and
  \<open>calls\<close> what was invoked. Listeners only observe. No storage adapter is
  configured, so \<open>save_state\<close> and \<open>load_state\<close> return at once and are left out.
\<close>

record Manager =
  keys :: "KeyState list"
  max_concurrency :: Limit
  active_calls :: int
  semantic_cache :: "SemanticCache option"
  is_resolving_embedding :: bool
  ticks :: nat
  draws :: nat
  events :: "Event list"
  calls :: "Call list"

datatype Strategy = StandardStrategy | WeightedStrategy | LatencyStrategy

text \<open>
  What the manager is constructed with and the outside world: \<open>clock n\<close> is the
  \<open>n\<close>-th value of \<open>int(time.time() * 1000)\<close>, \<open>random_uniform n a b\<close> the \<open>n\<close>-th
  value of \<open>random.uniform(a, b)\<close>, \<open>fallback_fn\<close> and \<open>get_embedding_fn\<close> give the
  outcome of their \<open>n\<close>-th invocation (\<open>None\<close> from the embedding function: it raised).
\<close>

record Env =
  clock :: "nat \<Rightarrow> int"
  random_uniform :: "nat \<Rightarrow> real \<Rightarrow> real \<Rightarrow> real"
  strategy :: Strategy
  fallback_fn :: "(nat \<Rightarrow> Outcome) option"
  get_embedding_fn :: "(nat \<Rightarrow> string \<Rightarrow> real list option) option"

text \<open>
  The user function of one \<open>execute\<close> call: the outcome of its \<open>n\<close>-th invocation
  with a key, awaited under the given bound (\<open>None\<close>: awaited directly).
\<close>

type_synonym UserFn = "nat \<Rightarrow> string \<Rightarrow> int option \<Rightarrow> Outcome"

definition fn_count :: "Call list \<Rightarrow> nat" where
  "fn_count cs = length (filter (\<lambda>c. case c of FnCall _ \<Rightarrow> True | _ \<Rightarrow> False) cs)"

definition fallback_count :: "Call list \<Rightarrow> nat" where
  "fallback_count cs = length (filter (\<lambda>c. c = FallbackCall) cs)"

definition embedding_count :: "Call list \<Rightarrow> nat" where
  "embedding_count cs =
     length (filter (\<lambda>c. case c of EmbeddingCall _ \<Rightarrow> True | _ \<Rightarrow> False) cs)"

definition time_ms :: "Env \<Rightarrow> Manager \<Rightarrow> int \<times> Manager" where
  "time_ms env m = (clock env (ticks m), m\<lparr>ticks := Suc (ticks m)\<rparr>)"

definition emit :: "Event \<Rightarrow> Manager \<Rightarrow> Manager" where
  "emit ev m = m\<lparr>events := events m @ [ev]\<rparr>"

definition set_key :: "nat \<Rightarrow> KeyState \<Rightarrow> Manager \<Rightarrow> Manager" where
  "set_key i k m = m\<lparr>keys := (keys m)[i := k]\<rparr>"

section \<open>Construction (\<open>ApiKeyManager.__init__\<close>)\<close>

text \<open>
  The structured form of \<open>initial_keys\<close>: records \<open>(key, weight, provider)\<close>. Entries
  with an empty key are skipped; a repeated key keeps its first position and takes the
  last weight and provider, as the insertion-ordered \<open>unique_map\<close> does.
\<close>

fun unique_map :: "(string \<times> real \<times> string) list \<Rightarrow> (string \<times> real \<times> string) list
    \<Rightarrow> (string \<times> real \<times> string) list" where
  "unique_map acc [] = acc"
| "unique_map acc ((k, w, p) # rest) =
     (if k = [] then unique_map acc rest
      else if k \<in> fst ` set acc
        then unique_map (map (\<lambda>(k', v). if k' = k then (k, w, p) else (k', v)) acc) rest
        else unique_map (acc @ [(k, w, p)]) rest)"

definition new_Manager :: "(string \<times> real \<times> string) list \<Rightarrow> Limit \<Rightarrow> Manager" where
  "new_Manager initial_keys concurrency =
     \<lparr> keys = map (\<lambda>(k, w, p). new_KeyState k w p) (unique_map [] initial_keys),
       max_concurrency = concurrency, active_calls = 0,
       semantic_cache = None, is_resolving_embedding = False,
       ticks = 0, draws = 0, events = [], calls = [] \<rparr>"

section \<open>The circuit breaker\<close>

text \<open>
  \<open>_is_on_cooldown(k)\<close>, for the key object at index \<open>i\<close> of \<open>self.keys\<close>. The clock
  is read only for a key that is not DEAD.
\<close>

definition is_on_cooldown :: "Env \<Rightarrow> nat \<Rightarrow> Manager \<Rightarrow> bool \<times> Manager" where
  "is_on_cooldown env i m =
     (let k = keys m ! i in
      if circuitState k = DEAD then (True, m)
      else
        let (now, m1) = time_ms env m in
        if circuitState k = OPEN then
          (case halfOpenTestTime k of
             Some t \<Rightarrow>
               if t \<noteq> 0 \<and> now \<ge> t then
                 (False, emit (CircuitHalfOpen (key k))
                           (set_key i (k\<lparr>circuitState := HALF_OPEN\<rparr>) m1))
               else (True, m1)
           | None \<Rightarrow> (True, m1))
        else
          (case failedAt k of
             Some fa \<Rightarrow>
               if fa \<noteq> 0 then
                 if (case customCooldown k of
                       Some cc \<Rightarrow> cc \<noteq> 0 \<and> now - fa < cc
                     | None \<Rightarrow> False)
                 then (True, m1)
                 else
                   let cooldown =
                         (if isQuotaError k then COOLDOWN_QUOTA else COOLDOWN_TRANSIENT)
                   in if now - fa < cooldown then (True, m1) else (False, m1)
               else (False, m1)
           | None \<Rightarrow> (False, m1)))"

text \<open>\<open>next((x for x in self.keys if x.key == key), None)\<close>, as an index.\<close>

fun find_key :: "string \<Rightarrow> KeyState list \<Rightarrow> nat option" where
  "find_key s [] = None"
| "find_key s (k # ks) = (if key k = s then Some 0 else map_option Suc (find_key s ks))"

definition mark_success :: "string \<Rightarrow> int option \<Rightarrow> Manager \<Rightarrow> Manager" where
  "mark_success key_str duration_ms m =
     (case find_key key_str (keys m) of
        None \<Rightarrow> m
      | Some i \<Rightarrow>
          let k = keys m ! i;
              was_recovering = (circuitState k \<noteq> CLOSED \<and> circuitState k \<noteq> DEAD);
              m1 = (if was_recovering then emit (KeyRecovered key_str) m else m);
              k1 = k\<lparr> circuitState := CLOSED, failCount := 0, failedAt := None,
                     isQuotaError := False, customCooldown := None,
                     successCount := successCount k + 1,
                     totalRequests := totalRequests k + 1 \<rparr>;
              k2 = (case duration_ms of
                      None \<Rightarrow> k1
                    | Some d \<Rightarrow>
                        k1\<lparr> totalLatency := totalLatency k1 + real_of_int d,
                            latencySamples := latencySamples k1 + 1,
                            averageLatency :=
                              (totalLatency k1 + real_of_int d)
                                / real_of_int (latencySamples k1 + 1) \<rparr>)
          in set_key i k2 m1)"

definition mark_failed :: "Env \<Rightarrow> string \<Rightarrow> ErrorClassification \<Rightarrow> Manager \<Rightarrow> Manager" where
  "mark_failed env key_str classification m =
     (case find_key key_str (keys m) of
        None \<Rightarrow> m
      | Some i \<Rightarrow>
          let k = keys m ! i in
          if circuitState k = DEAD then m
          else if \<not> markKeyFailed classification then m
          else
            let (now, m1) = time_ms env m;
                k1 = k\<lparr> failedAt := Some now,
                       failCount := failCount k + 1,
                       totalRequests := totalRequests k + 1,
                       isQuotaError := (etype classification = QUOTA),
                       customCooldown :=
                         (if cooldownMs classification \<noteq> 0
                          then Some (cooldownMs classification) else None) \<rparr>
            in
            if markKeyDead classification then
              emit (KeyDead key_str) (set_key i (k1\<lparr>circuitState := DEAD\<rparr>) m1)
            else if circuitState k1 = HALF_OPEN then
              let (now2, m2) = time_ms env m1 in
              emit (CircuitOpen key_str)
                (set_key i (k1\<lparr> circuitState := OPEN,
                               halfOpenTestTime := Some (now2 + HALF_OPEN_TEST_DELAY) \<rparr>) m2)
            else if failCount k1 \<ge> MAX_CONSECUTIVE_FAILURES \<or> etype classification = QUOTA then
              let (now2, m2) = time_ms env m1 in
              emit (CircuitOpen key_str)
                (set_key i (k1\<lparr> circuitState := OPEN,
                               halfOpenTestTime :=
                                 Some (now2 + (if cooldownMs classification \<noteq> 0
                                               then cooldownMs classification
                                               else HALF_OPEN_TEST_DELAY)) \<rparr>) m2)
            else set_key i k1 m1)"

section \<open>Backoff (\<open>ApiKeyManager.calculate_backoff\<close>)\<close>

definition calculate_backoff :: "Env \<Rightarrow> int \<Rightarrow> Manager \<Rightarrow> real \<times> Manager" where
  "calculate_backoff env attempt m =
     (let exponential = real_of_int BASE_BACKOFF * (2 powi attempt);
          capped = min exponential (real_of_int MAX_BACKOFF);
          jitter = random_uniform env (draws m) 0 1000
      in (capped + jitter, m\<lparr>draws := Suc (draws m)\<rparr>))"

section \<open>Load-balancing strategies (core/strategies.py)\<close>

text \<open>
  A strategy returns one of the candidate objects; the model returns its position in
  the candidate list. \<open>candidates.sort(key=...)\<close> followed by \<open>candidates[0]\<close> is the
  head of the stably sorted positions.
\<close>

definition first_by :: "(KeyState \<Rightarrow> 'a::linorder) \<Rightarrow> KeyState list \<Rightarrow> nat option" where
  "first_by f candidates =
     (case sort_key (\<lambda>j. f (candidates ! j)) [0..<length candidates] of
        [] \<Rightarrow> None
      | j # _ \<Rightarrow> Some j)"

fun weighted_scan :: "real \<Rightarrow> KeyState list \<Rightarrow> nat \<Rightarrow> nat option" where
  "weighted_scan rand [] j = None"
| "weighted_scan rand (k # ks) j =
     (let rand' = rand - weight k in
      if rand' \<le> 0 then Some j else weighted_scan rand' ks (Suc j))"

definition strategy_next :: "Env \<Rightarrow> KeyState list \<Rightarrow> Manager \<Rightarrow> nat option \<times> Manager" where
  "strategy_next env candidates m =
     (if candidates = [] then (None, m)
      else case strategy env of
        StandardStrategy \<Rightarrow> (first_by (\<lambda>k. (failCount k, lastUsed k)) candidates, m)
      | LatencyStrategy \<Rightarrow> (first_by (\<lambda>k. (averageLatency k, lastUsed k)) candidates, m)
      | WeightedStrategy \<Rightarrow>
          let total_weight = sum_list (map weight candidates);
              rand = random_uniform env (draws m) 0 total_weight;
              m1 = m\<lparr>draws := Suc (draws m)\<rparr>
          in (case weighted_scan rand candidates 0 of
                Some j \<Rightarrow> (Some j, m1)
              | None \<Rightarrow> (Some 0, m1)))"

section \<open>Key selection (\<open>get_key\<close>, \<open>get_key_by_provider\<close>)\<close>

text \<open>
  The list comprehension \<open>[k for k in self.keys if want(k) and k.circuitState != DEAD
  and not self._is_on_cooldown(k)]\<close>: the keys are visited in order, the cooldown check
  runs (and may change the key) only where the tests before it hold. The result is the
  list of the indices of the candidates.
\<close>

fun scan_candidates ::
    "Env \<Rightarrow> (KeyState \<Rightarrow> bool) \<Rightarrow> nat list \<Rightarrow> Manager \<Rightarrow> nat list \<times> Manager" where
  "scan_candidates env want [] m = ([], m)"
| "scan_candidates env want (i # rest) m =
     (if want (keys m ! i) \<and> circuitState (keys m ! i) \<noteq> DEAD then
        (case is_on_cooldown env i m of
           (cd, m1) \<Rightarrow>
             (case scan_candidates env want rest m1 of
                (others, m2) \<Rightarrow> (if cd then others else i # others, m2)))
      else scan_candidates env want rest m)"

text \<open>
  The common end of both selectors: ask the strategy, stamp \<open>lastUsed\<close> with a fresh
  reading of the clock, return the key.
\<close>

definition select_candidate :: "Env \<Rightarrow> nat list \<Rightarrow> Manager \<Rightarrow> string option \<times> Manager" where
  "select_candidate env candidates m =
     (case strategy_next env (map (\<lambda>i. keys m ! i) candidates) m of
        (None, m1) \<Rightarrow> (None, m1)
      | (Some j, m1) \<Rightarrow>
          let i = candidates ! j;
              (now, m2) = time_ms env m1;
              k = keys m2 ! i
          in (Some (key k), set_key i (k\<lparr>lastUsed := now\<rparr>) m2))"

definition get_key :: "Env \<Rightarrow> Manager \<Rightarrow> string option \<times> Manager" where
  "get_key env m =
     (case scan_candidates env (\<lambda>k. True) [0..<length (keys m)] m of
        (candidates, m1) \<Rightarrow>
          if candidates = [] then
            let non_dead =
                  filter (\<lambda>i. circuitState (keys m1 ! i) \<noteq> DEAD) [0..<length (keys m1)]
            in if non_dead = [] then (None, emit AllKeysExhausted m1)
               else
                 let sorted_non_dead =
                       sort_key (\<lambda>i. case failedAt (keys m1 ! i) of
                                        Some t \<Rightarrow> t | None \<Rightarrow> 0) non_dead
                 in (Some (key (keys m1 ! hd sorted_non_dead)), m1)
          else select_candidate env candidates m1)"

definition get_key_by_provider :: "Env \<Rightarrow> string \<Rightarrow> Manager \<Rightarrow> string option \<times> Manager" where
  "get_key_by_provider env p m =
     (case scan_candidates env (\<lambda>k. provider k = p) [0..<length (keys m)] m of
        (candidates, m1) \<Rightarrow>
          if candidates = [] then (None, m1)
          else select_candidate env candidates m1)"

section \<open>The semantic cache (\<open>SemanticCache\<close>)\<close>

definition cosine_similarity :: "real list \<Rightarrow> real list \<Rightarrow> real" where
  "cosine_similarity vec_a vec_b =
     (if length vec_a \<noteq> length vec_b then 0
      else
        let dot_product = sum_list (map (\<lambda>(a, b). a * b) (zip vec_a vec_b));
            norm_a = sum_list (map (\<lambda>a. a * a) vec_a);
            norm_b = sum_list (map (\<lambda>b. b * b) vec_b);
            denominator = (norm_a powr (1 / 2)) * (norm_b powr (1 / 2))
        in if denominator \<noteq> 0 then dot_product / denominator else 0)"

text \<open>
  \<open>get\<close> walks the entries from the newest to the oldest, drops the expired ones and
  keeps the first entry of strictly highest similarity at or above the threshold.
\<close>

definition cache_get ::
    "Env \<Rightarrow> real list \<Rightarrow> SemanticCache \<Rightarrow> Manager \<Rightarrow> string option \<times> SemanticCache \<times> Manager" where
  "cache_get env vector c m =
     (let (now, m1) = time_ms env m;
          live = filter (\<lambda>e. \<not> (now - ce_timestamp e > ttl_ms c)) (entries c);
          (best_match, highest_similarity) =
            foldl (\<lambda>(best, highest) e.
                     let similarity = cosine_similarity vector (ce_vector e) in
                     if similarity \<ge> threshold c \<and> similarity > highest
                     then (Some e, similarity) else (best, highest))
                  (None, - 1) (rev live)
      in (map_option ce_response best_match, c\<lparr>entries := live\<rparr>, m1))"

definition cache_set ::
    "Env \<Rightarrow> string \<Rightarrow> real list \<Rightarrow> string \<Rightarrow> SemanticCache \<Rightarrow> Manager
     \<Rightarrow> SemanticCache \<times> Manager" where
  "cache_set env p vector resp c m =
     (let kept = filter (\<lambda>e. ce_prompt e \<noteq> p) (entries c);
          (now, m1) = time_ms env m;
          appended = kept @ [\<lparr> ce_vector = vector, ce_prompt = p,
                               ce_response = resp, ce_timestamp = now \<rparr>];
          bounded = (if length appended > 500 then tl appended else appended)
      in (c\<lparr>entries := bounded\<rparr>, m1))"

section \<open>The retry loop (\<open>ApiKeyManager._execute_with_retry\<close>)\<close>

fun str_nat :: "nat \<Rightarrow> string" where
  "str_nat n =
     (if n < 10 then [char_of (48 + n)]
      else str_nat (n div 10) @ [char_of (48 + n mod 10)])"

definition str_int_opt :: "int option \<Rightarrow> string" where
  "str_int_opt x =
     (case x of
        None \<Rightarrow> ''None''
      | Some i \<Rightarrow> if i < 0 then CHR ''-'' # str_nat (nat (- i)) else str_nat (nat i))"

text \<open>The manager's own \<open>TimeoutError(ms)\<close>.\<close>

definition TimeoutError :: "int option \<Rightarrow> PyError" where
  "TimeoutError ms =
     \<lparr> message = ''Request timed out after '' @ str_int_opt ms @ ''ms'',
       status_code = Missing, status = Missing, response = None,
       exn_class = ManagerTimeoutError \<rparr>"

text \<open>
  Invoking the configured fallback: the event, then the call, whose value is returned
  and whose exception propagates.
\<close>

definition invoke_fallback :: "(nat \<Rightarrow> Outcome) \<Rightarrow> string \<Rightarrow> Manager \<Rightarrow> Result \<times> Manager" where
  "invoke_fallback fb reason m =
     (let m1 = emit (Fallback reason) m;
          out = fb (fallback_count (calls m1));
          m2 = m1\<lparr>calls := calls m1 @ [FallbackCall]\<rparr>
      in (case out of Returns v \<Rightarrow> (Return v, m2) | Raises e \<Rightarrow> (Raise (Err e), m2)))"

text \<open>\<open>if not key:\<close> of the loop body.\<close>

definition no_key :: "Env \<Rightarrow> Manager \<Rightarrow> Result \<times> Manager" where
  "no_key env m =
     (case fallback_fn env of
        Some fb \<Rightarrow> invoke_fallback fb ''all keys exhausted'' m
      | None \<Rightarrow> (Raise AllKeysExhaustedError, m))"

text \<open>
  \<open>self.get_key_by_provider(options.provider) if options.provider else self.get_key()\<close>.
\<close>

definition select_key :: "Env \<Rightarrow> ExecuteOptions \<Rightarrow> Manager \<Rightarrow> string option \<times> Manager" where
  "select_key env options m =
     (case opt_provider options of
        Some p \<Rightarrow> if p \<noteq> [] then get_key_by_provider env p m else get_key env m
      | None \<Rightarrow> get_key env m)"

text \<open>
  One iteration of \<open>for attempt in range(options.maxRetries + 1)\<close>: it either leaves
  the function (\<open>Done\<close>) or goes on to the next iteration with \<open>last_error\<close> set
  (\<open>Continue\<close>).
\<close>

datatype Step = Done Result | Continue PyError

definition attempt_once ::
    "Env \<Rightarrow> UserFn \<Rightarrow> ExecuteOptions \<Rightarrow> int \<Rightarrow> Manager \<Rightarrow> Step \<times> Manager" where
  "attempt_once env fn options attempt m =
     (case select_key env options m of
        (selected, m1) \<Rightarrow>
          if \<not> truthy_str selected then
            (case no_key env m1 of (r, m2) \<Rightarrow> (Done r, m2))
          else
            let key_str = the selected;
                (start, m2) = time_ms env m1;
                bound = (if truthy (timeoutMs options) then timeoutMs options else None);
                out = fn (fn_count (calls m2)) key_str bound;
                m3 = m2\<lparr>calls := calls m2 @ [FnCall key_str]\<rparr>
            in
            (case out of
               Returns result \<Rightarrow>
                 let (finish, m4) = time_ms env m3;
                     duration = finish - start;
                     m5 = mark_success key_str (Some duration) m4
                 in (Done (Return result), emit (ExecuteSuccess key_str duration) m5)
             | Raises raised \<Rightarrow>
                 let e = (if exn_class raised = AsyncioTimeoutError
                          then TimeoutError (timeoutMs options) else raised);
                     classification = classify_error e (finishReason options);
                     m4 = mark_failed env key_str classification m3;
                     m5 = emit (ExecuteFailed key_str e) m4
                 in
                 if \<not> retryable classification \<or> attempt \<ge> maxRetries options then
                   (case fallback_fn env of
                      Some fb \<Rightarrow>
                        if attempt \<ge> maxRetries options then
                          (case invoke_fallback fb ''max retries exceeded'' m5 of
                             (r, m6) \<Rightarrow> (Done r, m6))
                        else (Done (Raise (Err e)), m5)
                    | None \<Rightarrow> (Done (Raise (Err e)), m5))
                 else
                   let (delay, m6) = calculate_backoff env attempt m5;
                       m7 = emit (Retry key_str (attempt + 1) delay) m6
                   in (Continue raised, m7\<lparr>calls := calls m7 @ [SleepCall (delay / 1000)]\<rparr>)))"

text \<open>
  The loop over \<open>range(options.maxRetries + 1)\<close>: \<open>remaining\<close> iterations are left,
  \<open>attempt\<close> is the loop variable. After the last iteration comes \<open>raise last_error\<close>,
  which with \<open>last_error = None\<close> is a \<open>TypeError\<close>.
\<close>

fun retry_loop ::
    "Env \<Rightarrow> UserFn \<Rightarrow> ExecuteOptions \<Rightarrow> nat \<Rightarrow> int \<Rightarrow> PyError option \<Rightarrow> Manager
     \<Rightarrow> Result \<times> Manager" where
  "retry_loop env fn options 0 attempt last_error m =
     (case last_error of
        None \<Rightarrow> (Raise RaiseNoneTypeError, m)
      | Some e \<Rightarrow> (Raise (Err e), m))"
| "retry_loop env fn options (Suc remaining) attempt last_error m =
     (case attempt_once env fn options attempt m of
        (Done r, m1) \<Rightarrow> (r, m1)
      | (Continue e, m1) \<Rightarrow> retry_loop env fn options remaining (attempt + 1) (Some e) m1)"

definition execute_with_retry ::
    "Env \<Rightarrow> UserFn \<Rightarrow> ExecuteOptions \<Rightarrow> Manager \<Rightarrow> Result \<times> Manager" where
  "execute_with_retry env fn options m =
     retry_loop env fn options (nat (maxRetries options + 1)) 0 None m"

section \<open>The orchestrator (\<open>ApiKeyManager.execute\<close>)\<close>

text \<open>
  The semantic-cache stage before the live path. It returns the cached response on a
  hit, and the vector of the prompt when the embedding function returned one.
\<close>

definition cache_stage ::
    "Env \<Rightarrow> ExecuteOptions \<Rightarrow> Manager \<Rightarrow> string option \<times> real list option \<times> Manager" where
  "cache_stage env options m =
     (case (semantic_cache m, get_embedding_fn env) of
        (Some c, Some embedding) \<Rightarrow>
          if truthy_str (prompt options) \<and> \<not> is_resolving_embedding m then
            let p = the (prompt options);
                m1 = m\<lparr> is_resolving_embedding := True,
                       calls := calls m @ [EmbeddingCall p] \<rparr>
            in (case embedding (embedding_count (calls m)) p of
                  None \<Rightarrow> (None, None, m1\<lparr>is_resolving_embedding := False\<rparr>)
                | Some v \<Rightarrow>
                    (case cache_get env v c m1 of
                       (cached, c1, m2) \<Rightarrow>
                         let m3 = m2\<lparr>semantic_cache := Some c1\<rparr> in
                         (case cached of
                            Some r \<Rightarrow>
                              (Some r, Some v,
                               (emit (ExecuteSuccess ''CACHE_HIT'' 0) m3)
                                 \<lparr>is_resolving_embedding := False\<rparr>)
                          | None \<Rightarrow> (None, Some v, m3\<lparr>is_resolving_embedding := False\<rparr>))))
          else (None, None, m)
      | _ \<Rightarrow> (None, None, m))"

text \<open>\<open>self.active_calls >= self.max_concurrency\<close>.\<close>

definition at_capacity :: "Manager \<Rightarrow> bool" where
  "at_capacity m =
     (case max_concurrency m of Infinite \<Rightarrow> False | Finite n \<Rightarrow> active_calls m \<ge> n)"

definition execute ::
    "Env \<Rightarrow> UserFn \<Rightarrow> ExecuteOptions option \<Rightarrow> Manager \<Rightarrow> Result \<times> Manager" where
  "execute env fn options_arg m =
     (let options = (case options_arg of Some opts \<Rightarrow> opts | None \<Rightarrow> default_ExecuteOptions) in
      case cache_stage env options m of
        (Some cached, current_prompt_vector, m1) \<Rightarrow> (Return cached, m1)
      | (None, current_prompt_vector, m1) \<Rightarrow>
          if at_capacity m1 then (Raise BulkheadRejectionError, emit BulkheadRejected m1)
          else
            (case execute_with_retry env fn options (m1\<lparr>active_calls := active_calls m1 + 1\<rparr>) of
               (Return result, m2) \<Rightarrow>
                 let m3 =
                       (case (semantic_cache m2, prompt options, current_prompt_vector) of
                          (Some c, Some p, Some v) \<Rightarrow>
                            if p \<noteq> [] \<and> v \<noteq> [] then
                              (case cache_set env p v result c m2 of
                                 (c1, m') \<Rightarrow> m'\<lparr>semantic_cache := Some c1\<rparr>)
                            else m2
                        | _ \<Rightarrow> m2)
                 in (Return result, m3\<lparr>active_calls := active_calls m3 - 1\<rparr>)
             | (Raise e, m2) \<Rightarrow> (Raise e, m2\<lparr>active_calls := active_calls m2 - 1\<rparr>)))"

section \<open>Sequences of operations\<close>

text \<open>The public operations of a manager, and a run of a list of them in order.\<close>

datatype Op =
  MarkSuccess string "int option"
| MarkFailed string ErrorClassification
| GetKey
| GetKeyByProvider string
| Execute UserFn "ExecuteOptions option"

fun run_op :: "Env \<Rightarrow> Op \<Rightarrow> Manager \<Rightarrow> Manager" where
  "run_op env (MarkSuccess k d) m = mark_success k d m"
| "run_op env (MarkFailed k c) m = mark_failed env k c m"
| "run_op env GetKey m = snd (get_key env m)"
| "run_op env (GetKeyByProvider p) m = snd (get_key_by_provider env p m)"
| "run_op env (Execute fn options) m = snd (execute env fn options m)"

fun run_ops :: "Env \<Rightarrow> Op list \<Rightarrow> Manager \<Rightarrow> Manager" where
  "run_ops env [] m = m"
| "run_ops env (op # ops) m = run_ops env ops (run_op env op m)"

section \<open>Example inputs\<close>

text \<open>The \<open>MockError(status)\<close> of tests/test\_manager.py: \<open>status_code\<close> set, empty message.\<close>

definition MockError :: "int \<Rightarrow> PyError" where
  "MockError s =
     \<lparr> message = [], status_code = Has (Some s), status = Missing, response = None,
       exn_class = OtherException \<rparr>"

text \<open>A clock that advances by one millisecond at each reading; no fallback, no cache.\<close>

definition example_env :: Env where
  "example_env =
     \<lparr> clock = (\<lambda>n. 1000000 + int n), random_uniform = (\<lambda>n a b. (a + b) / 2),
       strategy = StandardStrategy, fallback_fn = None, get_embedding_fn = None \<rparr>"


definition always_raises :: "PyError \<Rightarrow> UserFn" where
  "always_raises e = (\<lambda>n k bound. Raises e)"

definition always_returns :: "string \<Rightarrow> UserFn" where
  "always_returns v = (\<lambda>n k bound. Returns v)"

definition one_key :: Manager where
  "one_key = new_Manager [(''A'', 1, ''default'')] Infinite"

text \<open>
  A failure with a caller-supplied classification whose cooldown is one second, at time
  1000000; the clock then reads 1002000.
\<close>

definition short_cooldown :: ErrorClassification where
  "short_cooldown =
     \<lparr> etype = TRANSIENT, retryable = True, cooldownMs = 1000,
       markKeyFailed = True, markKeyDead = False \<rparr>"

definition jump_clock_env :: Env where
  "jump_clock_env = example_env\<lparr>clock := (\<lambda>n. if n = 0 then 1000000 else 1002000)\<rparr>"

definition custom_cooled :: Manager where
  "custom_cooled = mark_failed jump_clock_env ''A'' short_cooldown one_key"

text \<open>A key opened by a 429 at time 1000000, looked at again after time 2000000.\<close>

definition quota_opened :: Manager where
  "quota_opened = mark_failed example_env ''A'' (classify_error (MockError 429) None) one_key"

definition late_env :: Env where
  "late_env = example_env\<lparr>clock := (\<lambda>n. 2000000 + int n)\<rparr>"

text \<open>
  The single key after one \<open>execute\<close> whose call failed with status 403, and after one
  whose call failed with status 500 (\<open>maxRetries = 0\<close>, no fallback).
\<close>

definition dead_after_403 :: Manager where
  "dead_after_403 = snd (execute example_env (always_raises (MockError 403)) None one_key)"

definition failed_once :: Manager where
  "failed_once = snd (execute example_env (always_raises (MockError 500)) None one_key)"

section \<open>Auxiliary notions for the proofs\<close>

text \<open>
  \<open>frame m m'\<close>: from \<open>m\<close> to \<open>m'\<close> nothing changed but the keys (whose number is
  the same), the clock and random counters and the event log.
\<close>

definition frame :: "Manager \<Rightarrow> Manager \<Rightarrow> bool" where
  "frame m m' \<longleftrightarrow>
     calls m' = calls m \<and> active_calls m' = active_calls m
     \<and> max_concurrency m' = max_concurrency m \<and> semantic_cache m' = semantic_cache m
     \<and> is_resolving_embedding m' = is_resolving_embedding m
     \<and> length (keys m') = length (keys m)"

text \<open>A manager constructed with an empty key list.\<close>

definition no_keys :: Manager where
  "no_keys = new_Manager [] Infinite"

definition two_retries :: ExecuteOptions where
  "two_retries = default_ExecuteOptions\<lparr>maxRetries := 2\<rparr>"

text \<open>
  The scan of \<open>get_key_by_provider(p)\<close> visits the keys in order and reads the clock once
  for each key of provider \<open>p\<close> that is not DEAD, so when the keys before it are on
  cooldown the key at index \<open>i\<close> is checked at the reading \<open>check_index p m i\<close>: the
  first reading not yet taken, plus the number of such keys before \<open>i\<close>.
\<close>

definition check_index :: "string \<Rightarrow> Manager \<Rightarrow> nat \<Rightarrow> nat" where
  "check_index p m i =
     ticks m
     + length (filter (\<lambda>k. provider k = p \<and> circuitState k \<noteq> DEAD) (take i (keys m)))"

text \<open>
  \<open>provider_cooling env p m\<close>: a call of \<open>get_key_by_provider(p)\<close> in state \<open>m\<close> finds
  every key of provider \<open>p\<close> that is not DEAD on cooldown, at the reading of the clock
  at which it checks that key. Nothing is asked of the clock before or after the call.
\<close>

definition provider_cooling :: "Env \<Rightarrow> string \<Rightarrow> Manager \<Rightarrow> bool" where
  "provider_cooling env p m \<longleftrightarrow>
     (\<forall>i < length (keys m).
        provider (keys m ! i) = p \<and> circuitState (keys m ! i) \<noteq> DEAD \<longrightarrow>
        fst (is_on_cooldown env i (m\<lparr>ticks := check_index p m i\<rparr>)))"

text \<open>
  Two keys of provider \<open>gemini\<close> that failed with a 500 at times 1000000 and 1000001,
  under the clock that advances by one millisecond at each reading, and a call that asks
  for a provider.
\<close>

definition both_cooling :: Manager where
  "both_cooling =
     mark_failed example_env ''B'' (classify_error (MockError 500) None)
       (mark_failed example_env ''A'' (classify_error (MockError 500) None)
          (new_Manager [(''A'', 1, ''gemini''), (''B'', 1, ''gemini'')] Infinite))"

definition provider_options :: "string \<Rightarrow> ExecuteOptions" where
  "provider_options p = default_ExecuteOptions\<lparr>opt_provider := Some p\<rparr>"

section \<open>Concurrent calls at the bulkhead\<close>

text \<open>
  Several \<open>execute\<close> calls interleaved on one event loop, as far as the bulkhead is
  concerned. A call arrives (\<open>AtGate\<close>), passes or fails the test of lines 313-317 in
  one step, since no \<open>await\<close> separates the test from the increment (\<open>InLoop\<close> or
  \<open>Rejected\<close>), runs iterations of its retry loop while the other calls run theirs,
  and leaves through the \<open>finally\<close> of line 326 (\<open>Left\<close>). A step names the call that
  moves; a step that is not enabled changes nothing.
\<close>

datatype Phase = AtGate | InLoop | Rejected | Left

datatype BulkheadStep =
  Arrive
| Gate nat
| Attempt nat UserFn ExecuteOptions int
| Leave nat

fun bulkhead_step :: "Env \<Rightarrow> BulkheadStep \<Rightarrow> Manager \<times> Phase list \<Rightarrow> Manager \<times> Phase list" where
  "bulkhead_step env Arrive (m, ps) = (m, ps @ [AtGate])"
| "bulkhead_step env (Gate i) (m, ps) =
     (if i < length ps \<and> ps ! i = AtGate then
        if at_capacity m then (emit BulkheadRejected m, ps[i := Rejected])
        else (m\<lparr>active_calls := active_calls m + 1\<rparr>, ps[i := InLoop])
      else (m, ps))"
| "bulkhead_step env (Attempt i fn options attempt) (m, ps) =
     (if i < length ps \<and> ps ! i = InLoop
      then (snd (attempt_once env fn options attempt m), ps)
      else (m, ps))"
| "bulkhead_step env (Leave i) (m, ps) =
     (if i < length ps \<and> ps ! i = InLoop
      then (m\<lparr>active_calls := active_calls m - 1\<rparr>, ps[i := Left])
      else (m, ps))"

fun bulkhead_run ::
    "Env \<Rightarrow> BulkheadStep list \<Rightarrow> Manager \<times> Phase list \<Rightarrow> Manager \<times> Phase list" where
  "bulkhead_run env [] st = st"
| "bulkhead_run env (s # steps) st = bulkhead_run env steps (bulkhead_step env s st)"

definition in_flight :: "Phase list \<Rightarrow> nat" where
  "in_flight ps = length (filter (\<lambda>p. p = InLoop) ps)"

text \<open>\<open>within_limit m\<close>: the counter does not exceed \<open>max_concurrency\<close>.\<close>

definition within_limit :: "Manager \<Rightarrow> bool" where
  "within_limit m =
     (case max_concurrency m of Infinite \<Rightarrow> True | Finite n \<Rightarrow> active_calls m \<le> n)"


definition bulkhead_inv :: "Manager \<times> Phase list \<Rightarrow> bool" where
  "bulkhead_inv st \<longleftrightarrow>
     active_calls (fst st) = int (in_flight (snd st)) \<and> within_limit (fst st)"

text \<open>
  One key with room for one call, and with room for none; two callers, of which the
  first is admitted, the second rejected while the first is in its loop.
\<close>

definition one_slot :: Manager where
  "one_slot = new_Manager [(''A'', 1, ''default'')] (Finite 1)"

definition no_slot :: Manager where
  "no_slot = new_Manager [(''A'', 1, ''default'')] (Finite 0)"

definition two_callers :: "BulkheadStep list" where
  "two_callers =
     [Arrive, Arrive, Gate 0, Gate 1,
      Attempt 0 (always_returns ''ok'') default_ExecuteOptions 0, Leave 0]"

text \<open>
  What holds of every key at all times: \<open>failCount\<close> is not negative, \<open>failedAt\<close> is
  absent exactly when \<open>failCount\<close> is 0, and a CLOSED key has fewer than
  \<open>MAX_CONSECUTIVE_FAILURES\<close> failures.
\<close>

definition key_inv :: "KeyState \<Rightarrow> bool" where
  "key_inv k \<longleftrightarrow>
     0 \<le> failCount k \<and> (failedAt k = None \<longleftrightarrow> failCount k = 0)
     \<and> (circuitState k = CLOSED \<longrightarrow> failCount k < MAX_CONSECUTIVE_FAILURES)"

definition keys_ok :: "Manager \<Rightarrow> bool" where
  "keys_ok m \<longleftrightarrow> (\<forall>k \<in> set (keys m). key_inv k)"


text \<open>A run of operations on the single key: two failures, a success, a failure.\<close>

definition failing_ops :: "Op list" where
  "failing_ops =
     [Execute (always_raises (MockError 500)) None,
      MarkFailed ''A'' (classify_error (MockError 500) None),
      GetKey,
      MarkSuccess ''A'' None,
      Execute (always_raises (MockError 500)) None]"

section \<open>The classification rules as the specification words them\<close>

text \<open>
  The specification gives each pattern as a list of phrases. A message mentions a
  phrase when it contains the words of the phrase in order, in any letter case, with at
  most one character (not a newline) between one word and the next.
\<close>

fun words_match :: "string list \<Rightarrow> string \<Rightarrow> bool" where
  "words_match [] s = True"
| "words_match [w] s = (\<exists>w' r. s = w' @ r \<and> lower w' = lower w)"
| "words_match (w # v # ws) s =
     (\<exists>w' sep r. s = w' @ sep @ r \<and> lower w' = lower w
        \<and> length sep \<le> 1 \<and> CHR 0x0A \<notin> set sep \<and> words_match (v # ws) r)"

definition mentions :: "string list list \<Rightarrow> string \<Rightarrow> bool" where
  "mentions phrases msg \<longleftrightarrow>
     (\<exists>before rest. msg = before @ rest \<and> (\<exists>ws \<in> set phrases. words_match ws rest))"

definition auth_phrases :: "string list list" where
  "auth_phrases =
     [[''403''], [''permission'', ''denied''], [''invalid'', ''api'', ''key''],
      [''unauthorized''], [''unauthenticated'']]"

definition quota_phrases :: "string list list" where
  "quota_phrases =
     [[''429''], [''quota''], [''exhausted''], [''resource'', ''exhausted''],
      [''too'', ''many'', ''requests''], [''rate'', ''limit'']]"

definition bad_request_phrases :: "string list list" where
  "bad_request_phrases =
     [[''400''], [''invalid'', ''argument''], [''failed'', ''precondition''],
      [''malformed''], [''not'', ''found''], [''404'']]"

definition transient_phrases :: "string list list" where
  "transient_phrases =
     [[''500''], [''502''], [''503''], [''504''], [''internal''], [''unavailable''],
      [''deadline''], [''timeout''], [''overloaded'']]"

text \<open>
  An error is a timeout when it is of the dedicated type or its message contains
  \<open>timeout\<close> in any letter case.
\<close>

definition is_timeout :: "PyError \<Rightarrow> bool" where
  "is_timeout error \<longleftrightarrow>
     exn_class error = ManagerTimeoutError
     \<or> (\<exists>before w rest. message error = before @ w @ rest \<and> lower w = ''timeout'')"

definition verdict ::
    "ErrorType \<Rightarrow> bool \<Rightarrow> int \<Rightarrow> bool \<Rightarrow> bool \<Rightarrow> ErrorClassification" where
  "verdict t r c f d =
     \<lparr> etype = t, retryable = r, cooldownMs = c, markKeyFailed = f, markKeyDead = d \<rparr>"

text \<open>
  The eight rules in their order, the first that applies deciding. The status is the
  one the error exposes (\<open>resolve_status\<close>).
\<close>

definition classify_spec :: "PyError \<Rightarrow> string option \<Rightarrow> ErrorClassification" where
  "classify_spec error finish_reason =
     (let st = resolve_status error; msg = message error in
      if finish_reason = Some ''SAFETY'' then verdict SAFETY False 0 False False
      else if finish_reason = Some ''RECITATION'' then verdict RECITATION False 0 False False
      else if is_timeout error then verdict TIMEOUT True 60000 True False
      else if st = Some 403 \<or> mentions auth_phrases msg
        then verdict AUTH False 999999999 True True
      else if st = Some 429 \<or> mentions quota_phrases msg
        then verdict QUOTA True 300000 True False
      else if st = Some 400 \<or> mentions bad_request_phrases msg
        then verdict BAD_REQUEST False 0 False False
      else if st \<in> {Some 500, Some 502, Some 503, Some 504} \<or> mentions transient_phrases msg
        then verdict TRANSIENT True 60000 True False
      else verdict UNKNOWN True 60000 True False)"

text \<open>The tokens of a phrase: its words, with \<open>.?\<close> between them.\<close>

fun phrase :: "string list \<Rightarrow> Tok list" where
  "phrase [] = []"
| "phrase [w] = map Lit w"
| "phrase (w # v # ws) = map Lit w @ OptAny # phrase (v # ws)"


text \<open>Errors on which two rules compete.\<close>

definition permission_denied_error :: PyError where
  "permission_denied_error =
     \<lparr> message = ''Permission-Denied for this key'', status_code = Missing,
       status = Missing, response = None, exn_class = OtherException \<rparr>"

definition timeout_with_403 :: PyError where
  "timeout_with_403 = (MockError 403)\<lparr>message := ''Read TimeOut''\<rparr>"

definition rate_limit_with_400 :: PyError where
  "rate_limit_with_400 = (MockError 400)\<lparr>message := ''Rate limit hit''\<rparr>"

section \<open>The cooldown check\<close>

text \<open>
  Claim C4, as stated, says that a key whose \<open>customCooldown\<close> is set and has elapsed is
  not on cooldown. It fails: a key that failed 2000 ms ago with a custom cooldown of
  1000 ms is still on cooldown, because the default cooldown is checked as well.
\<close>

theorem custom_cooldown_counterexample:
  "customCooldown (keys custom_cooled ! 0) = Some 1000
   \<and> failedAt (keys custom_cooled ! 0) = Some 1000000
   \<and> circuitState (keys custom_cooled ! 0) = CLOSED
   \<and> clock jump_clock_env (ticks custom_cooled) - 1000000 \<ge> 1000
   \<and> fst (is_on_cooldown jump_clock_env 0 custom_cooled)"
  by code_simp

text \<open>
  Claim C4, amended. \<open>_is_on_cooldown(k)\<close> returns true exactly when \<open>k\<close> is DEAD, or
  \<open>k\<close> is OPEN and it is not the case that \<open>halfOpenTestTime\<close> is set (and non-zero) and
  reached, or \<open>k\<close> is neither DEAD nor OPEN, \<open>failedAt\<close> is set (and non-zero) and
  \<open>now - failedAt\<close> is less than the larger of \<open>customCooldown\<close> (0 when unset) and the
  default cooldown (\<open>COOLDOWN_QUOTA\<close> if \<open>isQuotaError\<close>, else \<open>COOLDOWN_TRANSIENT\<close>). The
  key is changed only in the second case when the test time is reached: it becomes
  HALF_OPEN and the check returns false.
\<close>

theorem is_on_cooldown_effective:
  "(fst (is_on_cooldown env i m) \<longleftrightarrow>
     (let k = keys m ! i; now = clock env (ticks m) in
        circuitState k = DEAD
      \<or> (circuitState k = OPEN
          \<and> \<not> (\<exists>t. halfOpenTestTime k = Some t \<and> t \<noteq> 0 \<and> t \<le> now))
      \<or> (circuitState k \<noteq> DEAD \<and> circuitState k \<noteq> OPEN
          \<and> (\<exists>fa. failedAt k = Some fa \<and> fa \<noteq> 0
                \<and> now - fa <
                    max (case customCooldown k of Some cc \<Rightarrow> cc | None \<Rightarrow> 0)
                        (if isQuotaError k then COOLDOWN_QUOTA else COOLDOWN_TRANSIENT)))))
   \<and> keys (snd (is_on_cooldown env i m)) =
       (let k = keys m ! i; now = clock env (ticks m) in
        if circuitState k = OPEN
           \<and> (\<exists>t. halfOpenTestTime k = Some t \<and> t \<noteq> 0 \<and> t \<le> now)
        then (keys m)[i := k\<lparr>circuitState := HALF_OPEN\<rparr>] else keys m)"
  by (auto simp: is_on_cooldown_def time_ms_def emit_def set_key_def Let_def
        COOLDOWN_QUOTA_def COOLDOWN_TRANSIENT_def
      split: option.splits)

theorem is_on_cooldown_effective_witness:
  "circuitState (keys quota_opened ! 0) = OPEN
   \<and> halfOpenTestTime (keys quota_opened ! 0) = Some 1300001
   \<and> \<not> fst (is_on_cooldown late_env 0 quota_opened)
   \<and> map circuitState (keys (snd (is_on_cooldown late_env 0 quota_opened))) = [HALF_OPEN]
   \<and> fst (is_on_cooldown example_env 0 quota_opened)
   \<and> keys (snd (is_on_cooldown example_env 0 quota_opened)) = keys quota_opened"
proof -
  have k: "keys quota_opened =
      [(new_KeyState ''A'' 1 ''default'')
         \<lparr> failCount := 1, failedAt := Some 1000000, isQuotaError := True,
           circuitState := OPEN, totalRequests := 1,
           halfOpenTestTime := Some 1300001, customCooldown := Some 300000 \<rparr>]"
    by code_simp
  have t: "ticks quota_opened = 2"
    by code_simp
  show ?thesis
    using is_on_cooldown_effective [of late_env 0 quota_opened]
      is_on_cooldown_effective [of example_env 0 quota_opened]
    by (simp add: k t late_env_def example_env_def Let_def)
qed

section \<open>DEAD keys\<close>

text \<open>
  Claim C3 says that no operation takes a DEAD key to another circuit state. The code
  of \<open>mark_success\<close> does: the key killed by a 403 is CLOSED again after
  \<open>mark_success\<close>, which assigns \<open>circuitState = CLOSED\<close> without the guard that
  \<open>mark_failed\<close> has.
\<close>

theorem mark_success_revives_dead_key:
  "map circuitState (keys dead_after_403) = [DEAD]
   \<and> map circuitState (keys (mark_success ''A'' None dead_after_403)) = [CLOSED]"
  by code_simp

section \<open>Selection\<close>

text \<open>
  Claim C8 says that \<open>get_key\<close> sets \<open>lastUsed\<close> to the current time on every path that
  returns a key. On the path taken when every key that is not DEAD is on cooldown it
  does not: the key that failed at 1000003 is returned at time 1000004 with its
  \<open>lastUsed\<close> still 1000001, and the clock is read once only, by the cooldown check.
\<close>

theorem get_key_fallback_keeps_lastUsed:
  "map circuitState (keys failed_once) = [CLOSED]
   \<and> map lastUsed (keys failed_once) = [1000001]
   \<and> clock example_env (ticks failed_once) = 1000004
   \<and> fst (get_key example_env failed_once) = Some ''A''
   \<and> map lastUsed (keys (snd (get_key example_env failed_once))) = [1000001]
   \<and> ticks (snd (get_key example_env failed_once)) = 5"
  by code_simp

section \<open>What the operations leave unchanged\<close>

lemma frame_refl [simp]: "frame m m"
  by (simp add: frame_def)

lemma frame_trans: "frame m m1 \<Longrightarrow> frame m1 m2 \<Longrightarrow> frame m m2"
  by (simp add: frame_def)

lemma frame_time_ms [simp]: "frame m (snd (time_ms env m))"
  by (simp add: frame_def time_ms_def)

lemma frame_emit [simp]: "frame m (emit ev m')  \<longleftrightarrow> frame m m'"
  by (simp add: frame_def emit_def)

lemma frame_set_key [simp]: "frame m (set_key i k m') \<longleftrightarrow> frame m m'"
  by (simp add: frame_def set_key_def)

lemma frame_ticks [simp]: "frame m (m'\<lparr>ticks := t\<rparr>) \<longleftrightarrow> frame m m'"
  by (simp add: frame_def)

lemma frame_draws [simp]: "frame m (m'\<lparr>draws := t\<rparr>) \<longleftrightarrow> frame m m'"
  by (simp add: frame_def)

lemma frame_is_on_cooldown: "frame m (snd (is_on_cooldown env i m))"
  by (simp add: is_on_cooldown_def time_ms_def Let_def split: option.splits)

lemma frame_scan_candidates: "frame m (snd (scan_candidates env want is m))"
proof (induction "is" arbitrary: m)
  case Nil
  then show ?case by simp
next
  case (Cons i rest)
  show ?case
  proof (cases "want (keys m ! i) \<and> circuitState (keys m ! i) \<noteq> DEAD")
    case True
    obtain cd m1 where c: "is_on_cooldown env i m = (cd, m1)" by force
    obtain others m2 where s: "scan_candidates env want rest m1 = (others, m2)" by force
    have "frame m m1" using frame_is_on_cooldown [of m env i] c by simp
    moreover have "frame m1 m2" using Cons.IH [of m1] s by simp
    ultimately show ?thesis using True c s by (simp add: frame_trans)
  next
    case False
    then show ?thesis using Cons.IH [of m] by auto
  qed
qed

lemma frame_strategy_next: "frame m (snd (strategy_next env cs m))"
  by (simp add: strategy_next_def Let_def split: Strategy.splits option.splits)

lemma frame_select_candidate: "frame m (snd (select_candidate env cs m))"
proof -
  obtain sel m1 where s: "strategy_next env (map (\<lambda>i. keys m ! i) cs) m = (sel, m1)" by force
  have "frame m m1" using frame_strategy_next [of m env "map (\<lambda>i. keys m ! i) cs"] s by simp
  then show ?thesis
    by (simp add: select_candidate_def s time_ms_def Let_def split: option.splits)
qed

lemma frame_get_key: "frame m (snd (get_key env m))"
proof -
  obtain cs m1 where s: "scan_candidates env (\<lambda>k. True) [0..<length (keys m)] m = (cs, m1)" by force
  have f: "frame m m1" using frame_scan_candidates [of m env "\<lambda>k. True" "[0..<length (keys m)]"] s by simp
  show ?thesis
    using f frame_select_candidate [of m1 env cs]
    by (auto simp: get_key_def s Let_def intro: frame_trans)
qed

lemma frame_get_key_by_provider: "frame m (snd (get_key_by_provider env p m))"
proof -
  obtain cs m1 where s: "scan_candidates env (\<lambda>k. provider k = p) [0..<length (keys m)] m = (cs, m1)" by force
  have f: "frame m m1" using frame_scan_candidates [of m env "\<lambda>k. provider k = p" "[0..<length (keys m)]"] s by simp
  show ?thesis
    using f frame_select_candidate [of m1 env cs]
    by (auto simp: get_key_by_provider_def s intro: frame_trans)
qed

lemma frame_select_key: "frame m (snd (select_key env options m))"
  by (simp add: select_key_def frame_get_key frame_get_key_by_provider split: option.splits)

lemma frame_mark_success: "frame m (mark_success k d m)"
  by (simp add: mark_success_def Let_def split: option.splits)

lemma frame_mark_failed: "frame m (mark_failed env k c m)"
  by (simp add: mark_failed_def Let_def time_ms_def split: option.splits)

lemma frame_calculate_backoff: "frame m (snd (calculate_backoff env a m))"
  by (simp add: calculate_backoff_def Let_def)

section \<open>The calls made by the retry loop\<close>

lemma fn_count_simps [simp]:
  "fn_count [] = 0"
  "fn_count (xs @ ys) = fn_count xs + fn_count ys"
  "fn_count (FnCall k # xs) = Suc (fn_count xs)"
  "fn_count (FallbackCall # xs) = fn_count xs"
  "fn_count (EmbeddingCall p # xs) = fn_count xs"
  "fn_count (SleepCall d # xs) = fn_count xs"
  by (simp_all add: fn_count_def)

lemma fallback_count_simps [simp]:
  "fallback_count [] = 0"
  "fallback_count (xs @ ys) = fallback_count xs + fallback_count ys"
  "fallback_count (FnCall k # xs) = fallback_count xs"
  "fallback_count (FallbackCall # xs) = Suc (fallback_count xs)"
  "fallback_count (EmbeddingCall p # xs) = fallback_count xs"
  "fallback_count (SleepCall d # xs) = fallback_count xs"
  by (simp_all add: fallback_count_def)

lemma calls_mark_success [simp]: "calls (mark_success k d m) = calls m"
  using frame_mark_success [of m k d] by (simp add: frame_def)

lemma calls_mark_failed [simp]: "calls (mark_failed env k c m) = calls m"
  using frame_mark_failed [of m env k c] by (simp add: frame_def)

lemma calls_emit [simp]: "calls (emit ev m) = calls m"
  by (simp add: emit_def)

lemma calls_select_key: "select_key env options m = (sel, m1) \<Longrightarrow> calls m1 = calls m"
  using frame_select_key [of m env options] by (simp add: frame_def)

lemma invoke_fallback_calls:
  "invoke_fallback fb reason m = (r, m') \<Longrightarrow> calls m' = calls m @ [FallbackCall]"
  by (auto simp: invoke_fallback_def Let_def split: Outcome.splits)

lemma no_key_calls:
  "no_key env m = (r, m') \<Longrightarrow>
     calls m' = calls m @ (if fallback_fn env = None then [] else [FallbackCall])"
  by (auto simp: no_key_def split: option.splits dest: invoke_fallback_calls)

text \<open>What one iteration appends to the call history.\<close>

lemma attempt_once_calls:
  assumes "attempt_once env fn options a m = (step, m')"
  shows "\<exists>xs. calls m' = calls m @ xs \<and> fn_count xs \<le> 1 \<and> fallback_count xs \<le> 1"
proof -
  obtain sel m1 where s: "select_key env options m = (sel, m1)" by force
  have c1: "calls m1 = calls m" using s by (rule calls_select_key)
  show ?thesis
  proof (cases "truthy_str sel")
    case False
    obtain r m2 where n: "no_key env m1 = (r, m2)" by force
    have "m' = m2" using assms False by (simp add: attempt_once_def s n)
    then show ?thesis using no_key_calls [OF n] c1 by auto
  next
    case True
    then show ?thesis
      using assms c1
      by (auto simp: attempt_once_def s Let_def time_ms_def calculate_backoff_def
            split: Outcome.splits option.splits prod.splits if_splits
            dest!: invoke_fallback_calls)
  qed
qed

lemma attempt_once_fn_count:
  assumes "select_key env options m = (sel, m1)"
  shows "fn_count (calls (snd (attempt_once env fn options a m)))
           = fn_count (calls m) + (if truthy_str sel then 1 else 0)"
proof -
  have c1: "calls m1 = calls m" using assms by (rule calls_select_key)
  show ?thesis
  proof (cases "truthy_str sel")
    case False
    obtain r m2 where n: "no_key env m1 = (r, m2)" by force
    have "snd (attempt_once env fn options a m) = m2"
      using False by (simp add: attempt_once_def assms n)
    then show ?thesis using no_key_calls [OF n] c1 False by auto
  next
    case True
    then show ?thesis
      using c1
      by (auto simp: attempt_once_def assms Let_def time_ms_def calculate_backoff_def
            split: Outcome.splits option.splits prod.splits if_splits
            dest!: invoke_fallback_calls)
  qed
qed

lemma attempt_once_last:
  assumes "maxRetries options \<le> a"
  shows "\<exists>r. fst (attempt_once env fn options a m) = Done r"
proof -
  obtain sel m1 where s: "select_key env options m = (sel, m1)" by force
  show ?thesis
    using assms
    by (auto simp: attempt_once_def s Let_def time_ms_def
          split: Outcome.splits option.splits prod.splits)
qed

lemma retry_loop_calls:
  "\<exists>xs. calls (snd (retry_loop env fn options n a le m)) = calls m @ xs \<and> fn_count xs \<le> n"
proof (induction n arbitrary: a le m)
  case 0
  show ?case by (simp split: option.splits)
next
  case (Suc n)
  obtain step m1 where st: "attempt_once env fn options a m = (step, m1)" by force
  obtain xs where xs: "calls m1 = calls m @ xs" "fn_count xs \<le> 1"
    using attempt_once_calls [OF st] by blast
  show ?case
  proof (cases step)
    case (Done r)
    then show ?thesis using st xs by simp
  next
    case (Continue e)
    obtain ys where ys:
      "calls (snd (retry_loop env fn options n (a + 1) (Some e) m1)) = calls m1 @ ys"
      "fn_count ys \<le> n"
      using Suc.IH [of "a + 1" "Some e" m1] by blast
    show ?thesis using st Continue xs ys by simp
  qed
qed

lemma calls_cache_get: "cache_get env v c m = (r, c', m') \<Longrightarrow> calls m' = calls m"
  by (auto simp: cache_get_def time_ms_def Let_def split: prod.splits)

lemma calls_cache_set: "cache_set env p v r c m = (c', m') \<Longrightarrow> calls m' = calls m"
  by (auto simp: cache_set_def time_ms_def Let_def split: prod.splits)

lemma cache_stage_fn_count:
  "cache_stage env options m = (hit, vec, m') \<Longrightarrow> fn_count (calls m') = fn_count (calls m)"
  by (auto simp: cache_stage_def Let_def split: option.splits prod.splits if_splits
        dest!: calls_cache_get)

lemma execute_fn_count:
  "fn_count (calls (snd (execute env fn options_arg m)))
     \<le> fn_count (calls m)
        + nat (maxRetries (case options_arg of Some opts \<Rightarrow> opts
                           | None \<Rightarrow> default_ExecuteOptions) + 1)"
proof -
  define options where
    "options = (case options_arg of Some opts \<Rightarrow> opts | None \<Rightarrow> default_ExecuteOptions)"
  obtain hit vec m1 where cs: "cache_stage env options m = (hit, vec, m1)"
    by (metis prod_cases3)
  have c1: "fn_count (calls m1) = fn_count (calls m)" using cs by (rule cache_stage_fn_count)
  let ?m2 = "m1\<lparr>active_calls := active_calls m1 + 1\<rparr>"
  obtain r m3 where rl: "execute_with_retry env fn options ?m2 = (r, m3)" by force
  obtain xs where xs: "calls m3 = calls ?m2 @ xs" "fn_count xs \<le> nat (maxRetries options + 1)"
    using retry_loop_calls [of env fn options "nat (maxRetries options + 1)" 0 None ?m2] rl
    by (auto simp: execute_with_retry_def)
  show ?thesis
    unfolding options_def [symmetric]
    using cs c1 rl xs
    by (auto simp: execute_def options_def [symmetric] emit_def Let_def
          split: option.splits Result.splits prod.splits dest!: calls_cache_set)
qed

lemma retry_loop_once:
  "fn_count (calls (snd (retry_loop env fn options (Suc 0) a le m)))
     = fn_count (calls (snd (attempt_once env fn options a m)))"
  by (cases "attempt_once env fn options a m")
     (auto split: Step.splits option.splits)

lemma execute_fn_count_single:
  assumes "options = (case options_arg of Some opts \<Rightarrow> opts | None \<Rightarrow> default_ExecuteOptions)"
    and "maxRetries options = 0"
  shows "fn_count (calls (snd (execute env fn options_arg m))) =
          fn_count (calls m)
          + (case cache_stage env options m of
               (hit, vec, m1) \<Rightarrow>
                 if hit = None \<and> \<not> at_capacity m1
                    \<and> truthy_str (fst (select_key env options
                                         (m1\<lparr>active_calls := active_calls m1 + 1\<rparr>)))
                 then 1 else 0)"
proof -
  obtain hit vec m1 where cs: "cache_stage env options m = (hit, vec, m1)"
    by (metis prod_cases3)
  have c1: "fn_count (calls m1) = fn_count (calls m)" using cs by (rule cache_stage_fn_count)
  let ?m2 = "m1\<lparr>active_calls := active_calls m1 + 1\<rparr>"
  obtain sel m3 where sk: "select_key env options ?m2 = (sel, m3)" by force
  obtain r m4 where rl: "execute_with_retry env fn options ?m2 = (r, m4)" by force
  have "fn_count (calls m4) = fn_count (calls (snd (attempt_once env fn options 0 ?m2)))"
    using rl retry_loop_once [of env fn options 0 None ?m2] assms(2)
    by (simp add: execute_with_retry_def)
  then have c4: "fn_count (calls m4) = fn_count (calls m) + (if truthy_str sel then 1 else 0)"
    using attempt_once_fn_count [OF sk, of fn 0] c1 by simp
  show ?thesis
    using cs c1 rl c4 sk
    by (auto simp: execute_def assms(1) [symmetric] emit_def Let_def
          split: option.splits Result.splits prod.splits dest!: calls_cache_set)
qed

section \<open>Invocations of the user function\<close>

text \<open>
  Claim C1, as stated, says that with \<open>maxRetries = 0\<close> a call that reaches the live path
  invokes \<open>fn\<close> exactly once. It fails when no key can be selected: on a manager without
  keys the cache stage lets the call through, the bulkhead admits it, and \<open>fn\<close> is not
  invoked at all; the call fails with \<open>AllKeysExhausted\<close>.
\<close>

theorem execute_without_keys_counterexample:
  "maxRetries default_ExecuteOptions = 0
   \<and> fst (cache_stage example_env default_ExecuteOptions no_keys) = None
   \<and> \<not> at_capacity no_keys
   \<and> fst (execute example_env (always_returns ''ok'') None no_keys) = Raise AllKeysExhaustedError
   \<and> fn_count (calls (snd (execute example_env (always_returns ''ok'') None no_keys))) = 0"
  by code_simp

text \<open>
  Claim C1, amended. In every call of \<open>execute(fn, options)\<close> the user function is
  invoked at most \<open>maxRetries + 1\<close> times (not at all when \<open>maxRetries + 1 \<le> 0\<close>) and
  at most once in each iteration of the retry loop; with \<open>maxRetries = 0\<close> it is invoked
  exactly once when the cache stage gives no hit, the bulkhead admits the call and the
  selection returns a key, and not at all otherwise.
\<close>

theorem execute_invocations:
  "(let options = (case options_arg of Some opts \<Rightarrow> opts | None \<Rightarrow> default_ExecuteOptions) in
      fn_count (calls (snd (execute env fn options_arg m)))
        \<le> fn_count (calls m) + nat (maxRetries options + 1)
    \<and> fn_count (calls (snd (attempt_once env fn options a m')))
        \<le> fn_count (calls m') + 1
    \<and> (maxRetries options = 0 \<longrightarrow>
         fn_count (calls (snd (execute env fn options_arg m))) =
           fn_count (calls m)
           + (case cache_stage env options m of
                (hit, vec, m1) \<Rightarrow>
                  if hit = None \<and> \<not> at_capacity m1
                     \<and> truthy_str (fst (select_key env options
                                          (m1\<lparr>active_calls := active_calls m1 + 1\<rparr>)))
                  then 1 else 0)))"
proof -
  obtain sel m1 where sk: "select_key env
      (case options_arg of Some opts \<Rightarrow> opts | None \<Rightarrow> default_ExecuteOptions) m' = (sel, m1)"
    by force
  show ?thesis
    unfolding Let_def
    using execute_fn_count [of env fn options_arg m]
      attempt_once_fn_count [OF sk, of fn a]
      execute_fn_count_single [OF refl, of options_arg env fn m]
    by auto
qed

theorem execute_invocations_witness:
  "maxRetries default_ExecuteOptions = 0
   \<and> fn_count (calls (snd (execute example_env (always_returns ''ok'') None one_key))) = 1
   \<and> fn_count (calls (snd (execute example_env (always_returns ''ok'') None no_keys))) = 0"
proof -
  have a: "cache_stage example_env default_ExecuteOptions one_key = (None, None, one_key)"
    by code_simp
  have b: "cache_stage example_env default_ExecuteOptions no_keys = (None, None, no_keys)"
    by code_simp
  have c: "\<not> at_capacity one_key" "\<not> at_capacity no_keys" by code_simp+
  have d: "fst (select_key example_env default_ExecuteOptions
                 (one_key\<lparr>active_calls := active_calls one_key + 1\<rparr>)) = Some ''A''"
    by code_simp
  have e: "fst (select_key example_env default_ExecuteOptions
                 (no_keys\<lparr>active_calls := active_calls no_keys + 1\<rparr>)) = None"
    by code_simp
  have f: "calls one_key = []" "calls no_keys = []" by code_simp+
  have g: "maxRetries default_ExecuteOptions = 0" by code_simp
  show ?thesis
    using execute_invocations [of None example_env "always_returns ''ok''" one_key 0 one_key]
      execute_invocations [of None example_env "always_returns ''ok''" no_keys 0 no_keys]
    by (simp add: a b c d e f g truthy_str_def Let_def)
qed

section \<open>Non-retryable failures and the fallback\<close>





section \<open>Selection by provider\<close>

lemma is_on_cooldown_fst_cong:
  "keys m' = keys m \<Longrightarrow> ticks m' = ticks m \<Longrightarrow>
   fst (is_on_cooldown env i m') = fst (is_on_cooldown env i m)"
  by (simp add: is_on_cooldown_def time_ms_def Let_def split: option.splits)

lemma provider_cooling_cong:
  "keys m' = keys m \<Longrightarrow> ticks m' = ticks m \<Longrightarrow>
   provider_cooling env p m' = provider_cooling env p m"
proof -
  assume k: "keys m' = keys m" and t: "ticks m' = ticks m"
  have c: "\<And>i. check_index p m' i = check_index p m i"
    by (simp add: check_index_def k t)
  have "\<And>i. fst (is_on_cooldown env i (m'\<lparr>ticks := check_index p m' i\<rparr>))
               = fst (is_on_cooldown env i (m\<lparr>ticks := check_index p m i\<rparr>))"
    by (rule is_on_cooldown_fst_cong) (simp_all add: k c)
  then show ?thesis by (simp add: provider_cooling_def k)
qed

text \<open>
  The readings of one scan lie between \<open>ticks m\<close> and \<open>ticks m + length (keys m) - 1\<close>, so
  keys that are on cooldown at each of those readings are on cooldown when checked.
\<close>

lemma provider_cooling_window:
  assumes "\<forall>i < length (keys m).
        provider (keys m ! i) = p \<and> circuitState (keys m ! i) \<noteq> DEAD \<longrightarrow>
        (\<forall>t. ticks m \<le> t \<and> t < ticks m + length (keys m) \<longrightarrow>
             fst (is_on_cooldown env i (m\<lparr>ticks := t\<rparr>)))"
  shows "provider_cooling env p m"
proof -
  have "\<And>i. i < length (keys m) \<Longrightarrow>
          ticks m \<le> check_index p m i \<and> check_index p m i < ticks m + length (keys m)"
  proof -
    fix i assume i: "i < length (keys m)"
    have "length (filter (\<lambda>k. provider k = p \<and> circuitState k \<noteq> DEAD) (take i (keys m)))
            \<le> length (take i (keys m))"
      by (rule length_filter_le)
    then show "ticks m \<le> check_index p m i \<and> check_index p m i < ticks m + length (keys m)"
      using i by (simp add: check_index_def)
  qed
  then show ?thesis using assms unfolding provider_cooling_def by blast
qed

lemma check_index_Suc:
  "i < length (keys m) \<Longrightarrow>
   check_index p m (Suc i)
     = (if provider (keys m ! i) = p \<and> circuitState (keys m ! i) \<noteq> DEAD
        then Suc (check_index p m i) else check_index p m i)"
  by (simp add: check_index_def take_Suc_conv_app_nth)

lemma is_on_cooldown_true:
  assumes "fst (is_on_cooldown env i m)" and "circuitState (keys m ! i) \<noteq> DEAD"
  shows "snd (is_on_cooldown env i m) = m\<lparr>ticks := Suc (ticks m)\<rparr>"
  using assms
  by (auto simp: is_on_cooldown_def time_ms_def Let_def split: option.splits if_splits)

text \<open>
  The scan from index \<open>a\<close> on, in a state \<open>m\<close> that has the keys of the state \<open>m0\<close> of the
  call and has taken the readings before \<open>check_index p m0 a\<close>.
\<close>

lemma scan_candidates_cooling:
  assumes "provider_cooling env p m0"
  shows "keys m = keys m0 \<Longrightarrow> ticks m = check_index p m0 a \<Longrightarrow> n \<le> length (keys m0) \<Longrightarrow>
         fst (scan_candidates env (\<lambda>k. provider k = p) [a..<n] m) = []
         \<and> keys (snd (scan_candidates env (\<lambda>k. provider k = p) [a..<n] m)) = keys m0
         \<and> events (snd (scan_candidates env (\<lambda>k. provider k = p) [a..<n] m)) = events m"
proof (induction "n - a" arbitrary: a m)
  case 0
  then show ?case by simp
next
  case (Suc d)
  have an: "a < n" using Suc.hyps(2) by simp
  have al: "a < length (keys m0)" using an Suc.prems(3) by simp
  have u: "[a..<n] = a # [Suc a..<n]" using an by (simp add: upt_conv_Cons)
  have d: "d = n - Suc a" using Suc.hyps(2) by simp
  show ?case
  proof (cases "provider (keys m0 ! a) = p \<and> circuitState (keys m0 ! a) \<noteq> DEAD")
    case True
    have "fst (is_on_cooldown env a (m0\<lparr>ticks := check_index p m0 a\<rparr>))"
      using assms al True unfolding provider_cooling_def by blast
    moreover have "fst (is_on_cooldown env a m)
        = fst (is_on_cooldown env a (m0\<lparr>ticks := check_index p m0 a\<rparr>))"
      by (rule is_on_cooldown_fst_cong) (simp_all add: Suc.prems)
    ultimately have on: "fst (is_on_cooldown env a m)" by simp
    let ?m1 = "m\<lparr>ticks := Suc (ticks m)\<rparr>"
    have nd: "circuitState (keys m ! a) \<noteq> DEAD" using True Suc.prems(1) by simp
    have c: "is_on_cooldown env a m = (True, ?m1)"
      using on is_on_cooldown_true [OF on nd] by (simp add: prod_eq_iff)
    have t: "ticks ?m1 = check_index p m0 (Suc a)"
      using True al Suc.prems(2) by (simp add: check_index_Suc)
    have k: "keys ?m1 = keys m0" using Suc.prems(1) by simp
    note ih = Suc.hyps(1) [OF d k t Suc.prems(3)]
    show ?thesis using True c ih Suc.prems(1) by (simp add: u split: prod.splits)
  next
    case False
    have t: "ticks m = check_index p m0 (Suc a)"
      using False al Suc.prems(2) by (simp add: check_index_Suc)
    note ih = Suc.hyps(1) [OF d Suc.prems(1) t Suc.prems(3)]
    show ?thesis using False ih Suc.prems(1) by (auto simp: u)
  qed
qed

lemma get_key_by_provider_cooling:
  assumes "provider_cooling env p m"
  shows "fst (get_key_by_provider env p m) = None
         \<and> keys (snd (get_key_by_provider env p m)) = keys m"
proof -
  have "ticks m = check_index p m 0" by (simp add: check_index_def)
  note s = scan_candidates_cooling [OF assms refl this order_refl]
  show ?thesis
    using s by (auto simp: get_key_by_provider_def split: prod.splits)
qed

lemma retry_loop_no_key:
  assumes sel: "select_key env options m = (None, m1)"
  shows "fst (retry_loop env fn options (Suc n) a le m)
           = (case fallback_fn env of
                None \<Rightarrow> Raise AllKeysExhaustedError
              | Some fb \<Rightarrow> (case fb (fallback_count (calls m)) of
                             Returns v \<Rightarrow> Return v | Raises x \<Rightarrow> Raise (Err x)))
       \<and> calls (snd (retry_loop env fn options (Suc n) a le m))
           = calls m @ (if fallback_fn env = None then [] else [FallbackCall])"
proof -
  have c1: "calls m1 = calls m" using sel by (rule calls_select_key)
  show ?thesis
    using c1
    by (auto simp: attempt_once_def sel truthy_str_def no_key_def invoke_fallback_def Let_def
          split: option.splits Outcome.splits)
qed

text \<open>A key that is not DEAD stays so during the scan, and the others stay DEAD.\<close>

lemma is_on_cooldown_dead:
  "length (keys (snd (is_on_cooldown env i m))) = length (keys m)
   \<and> (circuitState (keys (snd (is_on_cooldown env i m)) ! j) = DEAD
        \<longleftrightarrow> circuitState (keys m ! j) = DEAD)"
  by (cases "i < length (keys m)"; cases "j = i")
     (auto simp: is_on_cooldown_def time_ms_def emit_def set_key_def Let_def
        list_update_beyond split: option.splits)

lemma scan_candidates_dead:
  "length (keys (snd (scan_candidates env want is m))) = length (keys m)
   \<and> (circuitState (keys (snd (scan_candidates env want is m)) ! j) = DEAD
        \<longleftrightarrow> circuitState (keys m ! j) = DEAD)"
proof (induction "is" arbitrary: m)
  case Nil
  then show ?case by simp
next
  case (Cons i rest)
  show ?case
  proof (cases "want (keys m ! i) \<and> circuitState (keys m ! i) \<noteq> DEAD")
    case True
    obtain cd m1 where c: "is_on_cooldown env i m = (cd, m1)" by force
    have d1: "length (keys m1) = length (keys m)"
      "circuitState (keys m1 ! j) = DEAD \<longleftrightarrow> circuitState (keys m ! j) = DEAD"
      using is_on_cooldown_dead [of env i m j] c by simp_all
    show ?thesis
      using True c d1 Cons.IH [of m1] by (auto split: prod.splits)
  next
    case False
    then show ?thesis using Cons.IH [of m] by auto
  qed
qed

lemma first_by_Some: "cs \<noteq> [] \<Longrightarrow> \<exists>j. first_by f cs = Some j"
proof -
  assume "cs \<noteq> []"
  then have "length (sort_key (\<lambda>j. f (cs ! j)) [0..<length cs]) \<noteq> 0" by simp
  then show ?thesis
    by (cases "sort_key (\<lambda>j. f (cs ! j)) [0..<length cs]") (auto simp: first_by_def)
qed

lemma strategy_next_Some:
  "cs \<noteq> [] \<Longrightarrow> \<exists>j. fst (strategy_next env cs m) = Some j"
  using first_by_Some [of cs "\<lambda>k. (failCount k, lastUsed k)"]
    first_by_Some [of cs "\<lambda>k. (averageLatency k, lastUsed k)"]
  by (auto simp: strategy_next_def Let_def split: Strategy.splits option.splits)

lemma select_candidate_Some:
  "cs \<noteq> [] \<Longrightarrow> \<exists>k. fst (select_candidate env cs m) = Some k"
proof -
  assume "cs \<noteq> []"
  then obtain j where "fst (strategy_next env (map (\<lambda>i. keys m ! i) cs) m) = Some j"
    using strategy_next_Some [of "map (\<lambda>i. keys m ! i) cs" env m] by auto
  then show ?thesis
    by (auto simp: select_candidate_def time_ms_def Let_def split: prod.splits option.splits)
qed

lemma get_key_Some:
  assumes "i < length (keys m)" and "circuitState (keys m ! i) \<noteq> DEAD"
  shows "\<exists>k. fst (get_key env m) = Some k"
proof -
  obtain cs m1 where s: "scan_candidates env (\<lambda>k. True) [0..<length (keys m)] m = (cs, m1)"
    by force
  have d: "length (keys m1) = length (keys m)"
    "circuitState (keys m1 ! i) = DEAD \<longleftrightarrow> circuitState (keys m ! i) = DEAD"
    using scan_candidates_dead [of env "\<lambda>k. True" "[0..<length (keys m)]" m i] s by simp_all
  show ?thesis
  proof (cases "cs = []")
    case True
    have "i \<in> set (filter (\<lambda>i. circuitState (keys m1 ! i) \<noteq> DEAD) [0..<length (keys m1)])"
      using assms d by simp
    then have "filter (\<lambda>i. circuitState (keys m1 ! i) \<noteq> DEAD) [0..<length (keys m1)] \<noteq> []"
      by (metis empty_iff empty_set)
    then show ?thesis using True by (simp add: get_key_def s Let_def)
  next
    case False
    then show ?thesis
      using select_candidate_Some [OF False, of env m1] by (simp add: get_key_def s)
  qed
qed


lemma cache_stage_keys:
  "cache_stage env options m = (hit, vec, m') \<Longrightarrow>
     keys m' = keys m \<and> fallback_count (calls m') = fallback_count (calls m)"
  by (auto simp: cache_stage_def cache_get_def time_ms_def emit_def Let_def
        split: option.splits prod.splits if_splits)

lemma execute_with_retry_cooling:
  assumes "opt_provider options = Some p" and "p \<noteq> []" and "0 \<le> maxRetries options"
    and "provider_cooling env p m"
  shows "fst (execute_with_retry env fn options m)
           = (case fallback_fn env of
                None \<Rightarrow> Raise AllKeysExhaustedError
              | Some fb \<Rightarrow> (case fb (fallback_count (calls m)) of
                             Returns v \<Rightarrow> Return v | Raises x \<Rightarrow> Raise (Err x)))
       \<and> fn_count (calls (snd (execute_with_retry env fn options m))) = fn_count (calls m)"
proof -
  have "select_key env options m = get_key_by_provider env p m"
    using assms(1,2) by (simp add: select_key_def)
  then have sel: "select_key env options m = (None, snd (get_key_by_provider env p m))"
    using get_key_by_provider_cooling [OF assms(4)] by (simp add: prod_eq_iff)
  obtain n where n: "nat (maxRetries options + 1) = Suc n"
    using assms(3) by (metis Suc_nat_eq_nat_zadd1 add.commute)
  show ?thesis
    using retry_loop_no_key [OF sel, of fn n 0 None]
    by (simp add: execute_with_retry_def n)
qed

text \<open>
  Claim C10. The closest-to-recovery path exists in \<open>get_key\<close> only. A call of \<open>execute\<close>
  with \<open>options.provider = p\<close> (a non-empty string, \<open>maxRetries \<ge> 0\<close>) that passes the
  cache stage and the bulkhead selects its key in the state \<open>m1\<close> that the cache stage
  leaves. When every key of provider \<open>p\<close> that is not DEAD is on cooldown as this
  selection checks it, \<open>get_key_by_provider(p)\<close> returns nothing, although such keys
  exist and \<open>get_key()\<close> returns a key in the same state; so the call never invokes
  \<open>fn\<close>: it raises \<open>AllKeysExhausted\<close>, or has the outcome of the fallback when one is
  configured.
\<close>

theorem provider_selection_without_recovery_key:
  assumes "opt_provider options = Some p" and "p \<noteq> []" and "0 \<le> maxRetries options"
    and "cache_stage env options m = (None, vec, m1)" and "\<not> at_capacity m1"
    and "provider_cooling env p m1"
    and "i < length (keys m1)" and "provider (keys m1 ! i) = p"
    and "circuitState (keys m1 ! i) \<noteq> DEAD"
  shows "fst (get_key_by_provider env p m1) = None
       \<and> fst (execute env fn (Some options) m)
           = (case fallback_fn env of
                None \<Rightarrow> Raise AllKeysExhaustedError
              | Some fb \<Rightarrow> (case fb (fallback_count (calls m)) of
                             Returns v \<Rightarrow> Return v | Raises x \<Rightarrow> Raise (Err x)))
       \<and> fn_count (calls (snd (execute env fn (Some options) m))) = fn_count (calls m)
       \<and> (\<exists>k. fst (get_key env m1) = Some k)"
proof -
  let ?m2 = "m1\<lparr>active_calls := active_calls m1 + 1\<rparr>"
  have k1: "fallback_count (calls m1) = fallback_count (calls m)"
    using cache_stage_keys [OF assms(4)] by simp
  have pc: "provider_cooling env p ?m2"
    using assms(6) provider_cooling_cong [of ?m2 m1 env p] by simp
  note r = execute_with_retry_cooling [OF assms(1-3) pc, of fn]
  obtain res m3 where e: "execute_with_retry env fn options ?m2 = (res, m3)" by force
  have f1: "fn_count (calls m1) = fn_count (calls m)"
    using assms(4) by (rule cache_stage_fn_count)
  have a: "fst (get_key_by_provider env p m1) = None"
    using get_key_by_provider_cooling [OF assms(6)] by simp
  have b: "\<exists>k. fst (get_key env m1) = Some k"
    using assms(7,9) by (rule get_key_Some)
  have c: "fst (execute env fn (Some options) m) = res"
    using assms(4,5) e
    by (auto simp: execute_def Let_def split: Result.splits option.splits prod.splits)
  have d: "fn_count (calls (snd (execute env fn (Some options) m))) = fn_count (calls m3)"
    using assms(4,5) e
    by (auto simp: execute_def Let_def split: Result.splits option.splits prod.splits
          dest!: calls_cache_set)
  show ?thesis using a b c d r e k1 f1 by (auto split: option.splits)
qed

text \<open>
  Under the advancing clock: two \<open>gemini\<close> keys that failed at 1000000 and 1000001 are
  checked at 1000002 and 1000003, inside their cooldown of one minute; and the single
  \<open>default\<close> key of \<open>failed_once\<close>, which failed at 1000003, is checked at 1000004, where
  \<open>get_key()\<close> returns it.
\<close>

theorem provider_selection_without_recovery_key_witness:
  "provider_cooling example_env ''gemini'' both_cooling
   \<and> map circuitState (keys both_cooling) = [CLOSED, CLOSED]
   \<and> map (clock example_env \<circ> check_index ''gemini'' both_cooling) [0, 1] = [1000002, 1000003]
   \<and> fst (get_key_by_provider example_env ''gemini'' both_cooling) = None
   \<and> fst (execute example_env (always_returns ''ok'') (Some (provider_options ''gemini''))
            both_cooling) = Raise AllKeysExhaustedError
   \<and> fn_count (calls (snd (execute example_env (always_returns ''ok'')
                              (Some (provider_options ''gemini'')) both_cooling))) = 0
   \<and> (\<exists>k. fst (get_key example_env both_cooling) = Some k)
   \<and> provider_cooling example_env ''default'' failed_once
   \<and> fst (get_key_by_provider example_env ''default'' failed_once) = None
   \<and> fst (execute example_env (always_returns ''ok'') (Some (provider_options ''default''))
            failed_once) = Raise AllKeysExhaustedError
   \<and> fst (get_key example_env failed_once) = Some ''A''"
proof -
  have pc: "provider_cooling example_env ''gemini'' both_cooling" by code_simp
  have o: "opt_provider (provider_options ''gemini'') = Some ''gemini''" "''gemini'' \<noteq> []"
    "0 \<le> maxRetries (provider_options ''gemini'')"
    by code_simp+
  have i: "0 < length (keys both_cooling)" "provider (keys both_cooling ! 0) = ''gemini''"
    "circuitState (keys both_cooling ! 0) \<noteq> DEAD"
    by code_simp+
  have c: "cache_stage example_env (provider_options ''gemini'') both_cooling
             = (None, None, both_cooling)"
    by code_simp
  have a: "\<not> at_capacity both_cooling" by code_simp
  have f: "fallback_fn example_env = None" "calls both_cooling = []" by code_simp+
  have s: "map circuitState (keys both_cooling) = [CLOSED, CLOSED]"
    "map (clock example_env \<circ> check_index ''gemini'' both_cooling) [0, 1] = [1000002, 1000003]"
    by code_simp+
  have pc': "provider_cooling example_env ''default'' failed_once" by code_simp
  have o': "opt_provider (provider_options ''default'') = Some ''default''" "''default'' \<noteq> []"
    "0 \<le> maxRetries (provider_options ''default'')"
    by code_simp+
  have i': "0 < length (keys failed_once)" "provider (keys failed_once ! 0) = ''default''"
    "circuitState (keys failed_once ! 0) \<noteq> DEAD"
    by code_simp+
  have c': "cache_stage example_env (provider_options ''default'') failed_once
             = (None, None, failed_once)"
    by code_simp
  have a': "\<not> at_capacity failed_once" by code_simp
  have g: "fst (get_key example_env failed_once) = Some ''A''" by code_simp
  have x: "fst (get_key_by_provider example_env ''gemini'' both_cooling) = None
     \<and> fst (execute example_env (always_returns ''ok'') (Some (provider_options ''gemini''))
              both_cooling) = Raise AllKeysExhaustedError
     \<and> fn_count (calls (snd (execute example_env (always_returns ''ok'')
                                (Some (provider_options ''gemini'')) both_cooling))) = 0
     \<and> (\<exists>k. fst (get_key example_env both_cooling) = Some k)"
    using provider_selection_without_recovery_key
      [OF o c a pc i, of "always_returns ''ok''"]
    by (simp add: f)
  have y: "fst (get_key_by_provider example_env ''default'' failed_once) = None
     \<and> fst (execute example_env (always_returns ''ok'') (Some (provider_options ''default''))
              failed_once) = Raise AllKeysExhaustedError"
    using provider_selection_without_recovery_key
      [OF o' c' a' pc' i', of "always_returns ''ok''"]
    by (simp add: f)
  show ?thesis using pc s x pc' y g by simp
qed

section \<open>The bulkhead\<close>

lemma bulkhead_frame:
  "frame m m' \<Longrightarrow> active_calls m' = active_calls m \<and> max_concurrency m' = max_concurrency m"
  by (simp add: frame_def)

lemma attempt_once_bulkhead:
  "active_calls (snd (attempt_once env fn options a m)) = active_calls m
   \<and> max_concurrency (snd (attempt_once env fn options a m)) = max_concurrency m"
proof -
  obtain sel m1 where s: "select_key env options m = (sel, m1)" by force
  have f1: "active_calls m1 = active_calls m" "max_concurrency m1 = max_concurrency m"
    using frame_select_key [of m env options] s by (simp_all add: frame_def)
  have ms: "\<And>k d x. active_calls (mark_success k d x) = active_calls x
                    \<and> max_concurrency (mark_success k d x) = max_concurrency x"
    using frame_mark_success by (simp add: frame_def)
  have mf: "\<And>k c x. active_calls (mark_failed env k c x) = active_calls x
                    \<and> max_concurrency (mark_failed env k c x) = max_concurrency x"
    using frame_mark_failed by (simp add: frame_def)
  show ?thesis
    using f1
    by (auto simp: attempt_once_def s Let_def time_ms_def calculate_backoff_def emit_def
          no_key_def invoke_fallback_def ms mf
          split: Outcome.splits option.splits prod.splits)
qed

lemma retry_loop_bulkhead:
  "active_calls (snd (retry_loop env fn options n a le m)) = active_calls m
   \<and> max_concurrency (snd (retry_loop env fn options n a le m)) = max_concurrency m"
proof (induction n arbitrary: a le m)
  case 0
  show ?case by (simp split: option.splits)
next
  case (Suc n)
  obtain step m1 where st: "attempt_once env fn options a m = (step, m1)" by force
  have b: "active_calls m1 = active_calls m" "max_concurrency m1 = max_concurrency m"
    using attempt_once_bulkhead [of env fn options a m] st by simp_all
  show ?case
    using st b Suc.IH [of "a + 1" _ m1] by (cases step) simp_all
qed

lemma cache_stage_bulkhead:
  "cache_stage env options m = (hit, vec, m') \<Longrightarrow>
     active_calls m' = active_calls m \<and> max_concurrency m' = max_concurrency m
     \<and> keys m' = keys m"
  by (auto simp: cache_stage_def cache_get_def time_ms_def emit_def Let_def
        split: option.splits prod.splits if_splits)

lemma cache_set_bulkhead:
  "cache_set env p v r c m = (c', m') \<Longrightarrow>
     active_calls m' = active_calls m \<and> max_concurrency m' = max_concurrency m"
  by (auto simp: cache_set_def time_ms_def Let_def split: prod.splits)

lemma execute_restores_active_calls:
  "active_calls (snd (execute env fn options_arg m)) = active_calls m"
proof -
  define options where
    "options = (case options_arg of Some opts \<Rightarrow> opts | None \<Rightarrow> default_ExecuteOptions)"
  obtain hit vec m1 where cs: "cache_stage env options m = (hit, vec, m1)"
    by (metis prod_cases3)
  have c1: "active_calls m1 = active_calls m" using cache_stage_bulkhead [OF cs] by simp
  let ?m2 = "m1\<lparr>active_calls := active_calls m1 + 1\<rparr>"
  obtain r m3 where rl: "execute_with_retry env fn options ?m2 = (r, m3)" by force
  have c3: "active_calls m3 = active_calls m + 1"
    using retry_loop_bulkhead [of env fn options "nat (maxRetries options + 1)" 0 None ?m2]
      rl c1
    by (simp add: execute_with_retry_def)
  show ?thesis
    using cs c1 rl c3
    by (auto simp: execute_def options_def [symmetric] emit_def Let_def
          split: option.splits Result.splits prod.splits dest!: cache_set_bulkhead)
qed

lemma execute_rejects:
  assumes "cache_stage env (case options_arg of Some opts \<Rightarrow> opts
                            | None \<Rightarrow> default_ExecuteOptions) m = (None, vec, m1)"
    and "at_capacity m1"
  shows "execute env fn options_arg m = (Raise BulkheadRejectionError, emit BulkheadRejected m1)"
  using assms by (simp add: execute_def Let_def)

lemma in_flight_simps [simp]:
  "in_flight [] = 0"
  "in_flight (ps @ qs) = in_flight ps + in_flight qs"
  "in_flight [AtGate] = 0"
  by (simp_all add: in_flight_def)

lemma in_flight_update:
  assumes "i < length ps"
  shows "int (in_flight (ps[i := q]))
           = int (in_flight ps) - (if ps ! i = InLoop then 1 else 0)
             + (if q = InLoop then 1 else 0)"
  using assms
proof (induction ps arbitrary: i)
  case Nil
  then show ?case by simp
next
  case (Cons p ps)
  show ?case
  proof (cases i)
    case 0
    then show ?thesis by (simp add: in_flight_def)
  next
    case (Suc j)
    then have "j < length ps" using Cons.prems by simp
    from Cons.IH [OF this] show ?thesis using Suc by (auto simp: in_flight_def split: if_splits)
  qed
qed


lemma bulkhead_step_inv:
  assumes "bulkhead_inv (m, ps)"
  shows "bulkhead_inv (bulkhead_step env s (m, ps))
         \<and> max_concurrency (fst (bulkhead_step env s (m, ps))) = max_concurrency m"
proof (cases s)
  case Arrive
  then show ?thesis using assms by (simp add: bulkhead_inv_def)
next
  case (Gate i)
  then show ?thesis
    using assms in_flight_update [of i ps Rejected] in_flight_update [of i ps InLoop]
    by (auto simp: bulkhead_inv_def within_limit_def at_capacity_def emit_def
          split: Limit.splits)
next
  case (Attempt i fn options a)
  then show ?thesis
    using assms attempt_once_bulkhead [of env fn options a m]
    by (auto simp: bulkhead_inv_def within_limit_def split: Limit.splits)
next
  case (Leave i)
  then show ?thesis
    using assms in_flight_update [of i ps Left]
    by (auto simp: bulkhead_inv_def within_limit_def split: Limit.splits)
qed

lemma bulkhead_run_inv:
  "bulkhead_inv st \<Longrightarrow>
     bulkhead_inv (bulkhead_run env steps st)
     \<and> max_concurrency (fst (bulkhead_run env steps st)) = max_concurrency (fst st)"
proof (induction steps arbitrary: st)
  case Nil
  then show ?case by simp
next
  case (Cons s steps)
  obtain m ps where st: "st = (m, ps)" by force
  have "bulkhead_inv (bulkhead_step env s st)"
    "max_concurrency (fst (bulkhead_step env s st)) = max_concurrency (fst st)"
    using bulkhead_step_inv [of m ps env s] Cons.prems st by simp_all
  then show ?case using Cons.IH [of "bulkhead_step env s st"] by simp
qed

text \<open>
  Claim C7. From a manager with no call in flight and a limit that is not negative,
  after every interleaving of arrivals, gate tests, loop iterations and exits of
  concurrent \<open>execute\<close> calls the counter \<open>active_calls\<close> is the number of calls in
  their retry loop and does not exceed \<open>max_concurrency\<close>. A call that finds the
  counter at the limit raises \<open>BulkheadRejection\<close> without invoking \<open>fn\<close> or touching a
  key; every call leaves the counter as it found it, whether it returns or raises;
  with \<open>max_concurrency = 0\<close> every call that passes the cache stage is rejected.
\<close>

theorem bulkhead_never_exceeded:
  assumes "active_calls m0 = 0" and "within_limit m0"
    and "options = (case options_arg of Some opts \<Rightarrow> opts | None \<Rightarrow> default_ExecuteOptions)"
  shows "within_limit (fst (bulkhead_run env steps (m0, [])))
       \<and> active_calls (fst (bulkhead_run env steps (m0, [])))
           = int (in_flight (snd (bulkhead_run env steps (m0, []))))
       \<and> (\<forall>vec m1. cache_stage env options m = (None, vec, m1) \<and> at_capacity m1 \<longrightarrow>
             fst (execute env fn options_arg m) = Raise BulkheadRejectionError
             \<and> fn_count (calls (snd (execute env fn options_arg m))) = fn_count (calls m)
             \<and> keys (snd (execute env fn options_arg m)) = keys m)
       \<and> active_calls (snd (execute env fn options_arg m)) = active_calls m
       \<and> (max_concurrency m = Finite 0 \<and> 0 \<le> active_calls m
            \<and> fst (cache_stage env options m) = None \<longrightarrow>
             fst (execute env fn options_arg m) = Raise BulkheadRejectionError)"
proof -
  have "bulkhead_inv (m0, [])" using assms(1,2) by (simp add: bulkhead_inv_def)
  then have inv: "bulkhead_inv (bulkhead_run env steps (m0, []))"
    using bulkhead_run_inv by blast
  have rej: "\<And>vec m1. cache_stage env options m = (None, vec, m1) \<Longrightarrow> at_capacity m1 \<Longrightarrow>
      fst (execute env fn options_arg m) = Raise BulkheadRejectionError
      \<and> fn_count (calls (snd (execute env fn options_arg m))) = fn_count (calls m)
      \<and> keys (snd (execute env fn options_arg m)) = keys m"
  proof -
    fix vec m1
    assume cs: "cache_stage env options m = (None, vec, m1)" and cap: "at_capacity m1"
    have "execute env fn options_arg m = (Raise BulkheadRejectionError, emit BulkheadRejected m1)"
      using execute_rejects [of env options_arg m vec m1 fn] cs cap assms(3) by simp
    then show "fst (execute env fn options_arg m) = Raise BulkheadRejectionError
      \<and> fn_count (calls (snd (execute env fn options_arg m))) = fn_count (calls m)
      \<and> keys (snd (execute env fn options_arg m)) = keys m"
      using cache_stage_fn_count [OF cs] cache_stage_bulkhead [OF cs]
      by (simp add: emit_def)
  qed
  have zero: "max_concurrency m = Finite 0 \<and> 0 \<le> active_calls m
            \<and> fst (cache_stage env options m) = None \<longrightarrow>
             fst (execute env fn options_arg m) = Raise BulkheadRejectionError"
  proof
    assume h: "max_concurrency m = Finite 0 \<and> 0 \<le> active_calls m
            \<and> fst (cache_stage env options m) = None"
    obtain vec m1 where cs: "cache_stage env options m = (None, vec, m1)"
      using h by (metis fst_conv prod_cases3)
    have "at_capacity m1"
      using cache_stage_bulkhead [OF cs] h by (simp add: at_capacity_def)
    then show "fst (execute env fn options_arg m) = Raise BulkheadRejectionError"
      using rej [OF cs] by simp
  qed
  show ?thesis
    using inv rej zero execute_restores_active_calls [of env fn options_arg m]
    by (simp add: bulkhead_inv_def)
qed

theorem bulkhead_never_exceeded_witness:
  "active_calls one_slot = 0 \<and> within_limit one_slot
   \<and> within_limit (fst (bulkhead_run example_env two_callers (one_slot, [])))
   \<and> snd (bulkhead_run example_env two_callers (one_slot, [])) = [Left, Rejected]
   \<and> active_calls (fst (bulkhead_run example_env two_callers (one_slot, []))) = 0
   \<and> fst (execute example_env (always_returns ''ok'') None no_slot)
        = Raise BulkheadRejectionError
   \<and> fn_count (calls (snd (execute example_env (always_returns ''ok'') None no_slot))) = 0
   \<and> active_calls (snd (execute example_env (always_returns ''ok'') None one_slot)) = 0"
proof -
  have a: "active_calls one_slot = 0" "within_limit one_slot" by code_simp+
  have p: "snd (bulkhead_run example_env two_callers (one_slot, [])) = [Left, Rejected]"
    by code_simp
  have c: "cache_stage example_env default_ExecuteOptions no_slot = (None, None, no_slot)"
    by code_simp
  have z: "max_concurrency no_slot = Finite 0" "active_calls no_slot = 0" "calls no_slot = []"
    "at_capacity no_slot"
    by code_simp+
  show ?thesis
    using bulkhead_never_exceeded [OF a refl, of example_env two_callers None no_slot
        "always_returns ''ok''"]
      bulkhead_never_exceeded [OF a refl, of example_env two_callers None one_slot
        "always_returns ''ok''"]
    by (simp add: a p c z in_flight_def)
qed

section \<open>CLOSED keys\<close>

lemma keys_ok_cong: "keys m' = keys m \<Longrightarrow> keys_ok m' = keys_ok m"
  by (simp add: keys_ok_def)

lemma keys_ok_simps [simp]:
  "keys_ok (emit ev m) = keys_ok m"
  "keys_ok (snd (time_ms env m)) = keys_ok m"
  "keys_ok (m\<lparr>ticks := t\<rparr>) = keys_ok m"
  "keys_ok (m\<lparr>draws := d\<rparr>) = keys_ok m"
  "keys_ok (m\<lparr>calls := c\<rparr>) = keys_ok m"
  "keys_ok (m\<lparr>events := e\<rparr>) = keys_ok m"
  "keys_ok (m\<lparr>active_calls := a\<rparr>) = keys_ok m"
  "keys_ok (m\<lparr>semantic_cache := sc\<rparr>) = keys_ok m"
  "keys_ok (m\<lparr>is_resolving_embedding := b\<rparr>) = keys_ok m"
  by (simp_all add: keys_ok_def emit_def time_ms_def)

lemma keys_ok_set_key:
  assumes "keys_ok m" and "i < length (keys m) \<Longrightarrow> key_inv k"
  shows "keys_ok (set_key i k m)"
proof (cases "i < length (keys m)")
  case True
  then show ?thesis
    using assms set_update_subset_insert [of "keys m" i k]
    by (auto simp: keys_ok_def set_key_def)
next
  case False
  then show ?thesis using assms(1) by (simp add: keys_ok_def set_key_def list_update_beyond)
qed

lemma keys_ok_nth: "keys_ok m \<Longrightarrow> i < length (keys m) \<Longrightarrow> key_inv (keys m ! i)"
  by (simp add: keys_ok_def)

lemma keys_ok_is_on_cooldown:
  assumes "keys_ok m"
  shows "keys_ok (snd (is_on_cooldown env i m))"
proof -
  have h: "i < length (keys m) \<Longrightarrow> key_inv ((keys m ! i)\<lparr>circuitState := HALF_OPEN\<rparr>)"
    using keys_ok_nth [OF assms, of i] by (simp add: key_inv_def)
  have "keys_ok (set_key i ((keys m ! i)\<lparr>circuitState := HALF_OPEN\<rparr>) m)"
    using assms h by (rule keys_ok_set_key)
  then have s: "keys_ok (set_key i ((keys m ! i)\<lparr>circuitState := HALF_OPEN\<rparr>)
                           (m\<lparr>ticks := Suc (ticks m)\<rparr>))"
    by (simp add: keys_ok_def set_key_def)
  show ?thesis
    using assms s
    by (auto simp: is_on_cooldown_def time_ms_def Let_def split: option.splits)
qed

lemma keys_ok_scan_candidates:
  "keys_ok m \<Longrightarrow> keys_ok (snd (scan_candidates env want is m))"
proof (induction "is" arbitrary: m)
  case Nil
  then show ?case by simp
next
  case (Cons i rest)
  show ?case
  proof (cases "want (keys m ! i) \<and> circuitState (keys m ! i) \<noteq> DEAD")
    case True
    obtain cd m1 where c: "is_on_cooldown env i m = (cd, m1)" by force
    have "keys_ok m1" using keys_ok_is_on_cooldown [OF Cons.prems, of env i] c by simp
    then show ?thesis using True c Cons.IH [of m1] by (auto split: prod.splits)
  next
    case False
    then show ?thesis using Cons.IH [OF Cons.prems] by auto
  qed
qed

lemma keys_strategy_next: "keys (snd (strategy_next env cs m)) = keys m"
  by (simp add: strategy_next_def Let_def split: Strategy.splits option.splits)

lemma keys_ok_select_candidate:
  assumes "keys_ok m"
  shows "keys_ok (snd (select_candidate env cs m))"
proof -
  obtain sel m1 where s: "strategy_next env (map (\<lambda>i. keys m ! i) cs) m = (sel, m1)" by force
  have k1: "keys m1 = keys m"
    using keys_strategy_next [of env "map (\<lambda>i. keys m ! i) cs" m] s by simp
  then have ok1: "keys_ok m1" using assms keys_ok_cong by blast
  show ?thesis
  proof (cases sel)
    case None
    then show ?thesis using ok1 by (simp add: select_candidate_def s)
  next
    case (Some j)
    let ?i = "cs ! j"
    let ?m2 = "m1\<lparr>ticks := Suc (ticks m1)\<rparr>"
    have ok2: "keys_ok ?m2" using ok1 by simp
    have "?i < length (keys ?m2) \<Longrightarrow>
            key_inv ((keys ?m2 ! ?i)\<lparr>lastUsed := clock env (ticks m1)\<rparr>)"
      using keys_ok_nth [OF ok2, of ?i] by (simp add: key_inv_def)
    then have "keys_ok (set_key ?i ((keys ?m2 ! ?i)\<lparr>lastUsed := clock env (ticks m1)\<rparr>) ?m2)"
      using ok2 keys_ok_set_key by blast
    then show ?thesis
      using Some by (simp add: select_candidate_def s time_ms_def Let_def)
  qed
qed

lemma keys_ok_get_key: "keys_ok m \<Longrightarrow> keys_ok (snd (get_key env m))"
proof -
  assume ok: "keys_ok m"
  obtain cs m1 where s: "scan_candidates env (\<lambda>k. True) [0..<length (keys m)] m = (cs, m1)"
    by force
  have "keys_ok m1"
    using keys_ok_scan_candidates [OF ok, of env "\<lambda>k. True" "[0..<length (keys m)]"] s by simp
  then show ?thesis
    using keys_ok_select_candidate [of m1 env cs]
    by (auto simp: get_key_def s Let_def)
qed

lemma keys_ok_get_key_by_provider:
  "keys_ok m \<Longrightarrow> keys_ok (snd (get_key_by_provider env p m))"
proof -
  assume ok: "keys_ok m"
  obtain cs m1 where
    s: "scan_candidates env (\<lambda>k. provider k = p) [0..<length (keys m)] m = (cs, m1)"
    by force
  have "keys_ok m1"
    using keys_ok_scan_candidates [OF ok, of env "\<lambda>k. provider k = p" "[0..<length (keys m)]"] s
    by simp
  then show ?thesis
    using keys_ok_select_candidate [of m1 env cs]
    by (auto simp: get_key_by_provider_def s)
qed

lemma keys_ok_select_key: "keys_ok m \<Longrightarrow> keys_ok (snd (select_key env options m))"
  by (simp add: select_key_def keys_ok_get_key keys_ok_get_key_by_provider split: option.splits)

lemma find_key_less: "find_key s ks = Some i \<Longrightarrow> i < length ks \<and> key (ks ! i) = s"
  by (induction ks arbitrary: i) (auto split: if_splits)

lemma keys_ok_mark_success: "keys_ok m \<Longrightarrow> keys_ok (mark_success s d m)"
proof -
  assume ok: "keys_ok m"
  show ?thesis
  proof (cases "find_key s (keys m)")
    case None
    then show ?thesis using ok by (simp add: mark_success_def)
  next
    case (Some i)
    show ?thesis
      using ok Some
      by (auto simp: mark_success_def Let_def key_inv_def MAX_CONSECUTIVE_FAILURES_def
            intro!: keys_ok_set_key split: option.splits)
  qed
qed

lemma keys_ok_mark_failed: "keys_ok m \<Longrightarrow> keys_ok (mark_failed env s c m)"
proof -
  assume ok: "keys_ok m"
  show ?thesis
  proof (cases "find_key s (keys m)")
    case None
    then show ?thesis using ok by (simp add: mark_failed_def)
  next
    case (Some i)
    have il: "i < length (keys m)" using find_key_less [OF Some] by simp
    have ki: "key_inv (keys m ! i)" using keys_ok_nth [OF ok il] .
    show ?thesis
      using ok Some ki
      by (auto simp: mark_failed_def Let_def time_ms_def key_inv_def
            intro!: keys_ok_set_key)
  qed
qed


lemma keys_ok_attempt_once:
  assumes "keys_ok m"
  shows "keys_ok (snd (attempt_once env fn options a m))"
proof -
  obtain sel m1 where s: "select_key env options m = (sel, m1)" by force
  have ok1: "keys_ok m1" using keys_ok_select_key [OF assms, of env options] s by simp
  show ?thesis
    using ok1
    by (auto simp: attempt_once_def s Let_def time_ms_def calculate_backoff_def
          no_key_def invoke_fallback_def
          intro!: keys_ok_mark_success keys_ok_mark_failed
          split: Outcome.splits option.splits prod.splits)
qed

lemma keys_ok_retry_loop:
  "keys_ok m \<Longrightarrow> keys_ok (snd (retry_loop env fn options n a le m))"
proof (induction n arbitrary: a le m)
  case 0
  then show ?case by (simp split: option.splits)
next
  case (Suc n)
  obtain step m1 where st: "attempt_once env fn options a m = (step, m1)" by force
  have ok1: "keys_ok m1" using keys_ok_attempt_once [OF Suc.prems, of env fn options a] st by simp
  show ?case using st ok1 Suc.IH [OF ok1] by (cases step) simp_all
qed

lemma keys_cache_set: "cache_set env p v r c m = (c', m') \<Longrightarrow> keys m' = keys m"
  by (auto simp: cache_set_def time_ms_def Let_def split: prod.splits)

lemma keys_ok_execute:
  assumes "keys_ok m"
  shows "keys_ok (snd (execute env fn options_arg m))"
proof -
  define options where
    "options = (case options_arg of Some opts \<Rightarrow> opts | None \<Rightarrow> default_ExecuteOptions)"
  obtain hit vec m1 where cs: "cache_stage env options m = (hit, vec, m1)"
    by (metis prod_cases3)
  have ok1: "keys_ok m1"
    using cache_stage_keys [OF cs] assms keys_ok_cong by blast
  let ?m2 = "m1\<lparr>active_calls := active_calls m1 + 1\<rparr>"
  obtain r m3 where rl: "execute_with_retry env fn options ?m2 = (r, m3)" by force
  have ok3: "keys_ok m3"
    using keys_ok_retry_loop [of ?m2 env fn options "nat (maxRetries options + 1)" 0 None]
      ok1 rl
    by (simp add: execute_with_retry_def)
  have set: "\<And>p v x c c' m'. cache_set env p v x c m3 = (c', m') \<Longrightarrow> keys_ok m'"
    using keys_cache_set ok3 keys_ok_cong by blast
  show ?thesis
    using cs ok1 rl ok3
    by (auto simp: execute_def options_def [symmetric] Let_def
          split: option.splits Result.splits prod.splits dest: set)
qed

lemma keys_ok_run_op: "keys_ok m \<Longrightarrow> keys_ok (run_op env op m)"
  by (cases op)
     (simp_all add: keys_ok_mark_success keys_ok_mark_failed keys_ok_get_key
        keys_ok_get_key_by_provider keys_ok_execute)

lemma keys_ok_run_ops: "keys_ok m \<Longrightarrow> keys_ok (run_ops env ops m)"
  by (induction ops arbitrary: m) (simp_all add: keys_ok_run_op)

lemma keys_ok_new_Manager: "keys_ok (new_Manager initial_keys concurrency)"
  by (auto simp: keys_ok_def new_Manager_def new_KeyState_def key_inv_def
        MAX_CONSECUTIVE_FAILURES_def)

lemma mark_success_closes:
  assumes "find_key s (keys m) = Some i"
  shows "circuitState (keys (mark_success s d m) ! i) = CLOSED
         \<and> failCount (keys (mark_success s d m) ! i) = 0
         \<and> failedAt (keys (mark_success s d m) ! i) = None"
  using assms find_key_less [OF assms]
  by (auto simp: mark_success_def Let_def set_key_def emit_def split: option.splits)

text \<open>
  Claim C5, as stated, says that a CLOSED key has \<open>failCount = 0\<close> and no \<open>failedAt\<close>.
  It fails after one failure that neither kills nor opens the key: the key whose only
  call failed with a 500 is CLOSED with \<open>failCount = 1\<close> and \<open>failedAt\<close> set.
\<close>

theorem closed_key_counterexample:
  "map circuitState (keys failed_once) = [CLOSED]
   \<and> map failCount (keys failed_once) = [1]
   \<and> map failedAt (keys failed_once) = [Some 1000003]"
  by code_simp

text \<open>
  Claim C5, amended. After every sequence of operations on a manager as constructed,
  every key has \<open>failCount \<ge> 0\<close> and has \<open>failedAt\<close> absent exactly when
  \<open>failCount = 0\<close>, and a CLOSED key has \<open>failCount < MAX_CONSECUTIVE_FAILURES\<close>; right
  after \<open>mark_success\<close> the key is CLOSED with \<open>failCount = 0\<close> and \<open>failedAt\<close> absent.
\<close>

theorem closed_key_invariant:
  "(\<forall>k \<in> set (keys (run_ops env ops (new_Manager initial_keys concurrency))).
      0 \<le> failCount k \<and> (failedAt k = None \<longleftrightarrow> failCount k = 0)
      \<and> (circuitState k = CLOSED \<longrightarrow> failCount k < MAX_CONSECUTIVE_FAILURES))
   \<and> (\<forall>i. find_key s (keys m) = Some i \<longrightarrow>
         circuitState (keys (mark_success s d m) ! i) = CLOSED
         \<and> failCount (keys (mark_success s d m) ! i) = 0
         \<and> failedAt (keys (mark_success s d m) ! i) = None)"
  using keys_ok_run_ops [OF keys_ok_new_Manager, of env ops initial_keys concurrency]
    mark_success_closes [of s m _ d]
  by (simp add: keys_ok_def key_inv_def)


theorem closed_key_invariant_witness:
  "map circuitState
     (keys (run_ops example_env failing_ops (new_Manager [(''A'', 1, ''default'')] Infinite)))
     = [CLOSED]
   \<and> map failCount
     (keys (run_ops example_env failing_ops (new_Manager [(''A'', 1, ''default'')] Infinite)))
     = [1]
   \<and> failCount (hd (keys (run_ops example_env failing_ops
                             (new_Manager [(''A'', 1, ''default'')] Infinite))))
       < MAX_CONSECUTIVE_FAILURES
   \<and> failedAt (hd (keys (run_ops example_env failing_ops
                            (new_Manager [(''A'', 1, ''default'')] Infinite))))
       \<noteq> None
   \<and> find_key ''A'' (keys failed_once) = Some 0
   \<and> failCount (keys (mark_success ''A'' None failed_once) ! 0) = 0"
proof -
  have a: "map circuitState
     (keys (run_ops example_env failing_ops (new_Manager [(''A'', 1, ''default'')] Infinite)))
     = [CLOSED]"
    by code_simp
  have b: "map failCount
     (keys (run_ops example_env failing_ops (new_Manager [(''A'', 1, ''default'')] Infinite)))
     = [1]"
    by code_simp
  have c: "find_key ''A'' (keys failed_once) = Some 0" by code_simp
  have d: "keys (run_ops example_env failing_ops (new_Manager [(''A'', 1, ''default'')] Infinite))
             \<noteq> []"
    using a by auto
  show ?thesis
    using closed_key_invariant [of example_env failing_ops "[(''A'', 1, ''default'')]" Infinite
        "''A''" failed_once None] a b c d
    by (auto simp: neq_Nil_conv)
qed

section \<open>The classifier against its rules\<close>

lemma starts_with_iff: "starts_with s p \<longleftrightarrow> (\<exists>r. s = p @ r)"
  by (induction s p rule: starts_with.induct) auto

lemma str_in_iff: "str_in needle s \<longleftrightarrow> (\<exists>before rest. s = before @ needle @ rest)"
proof (induction s)
  case Nil
  show ?case by (auto simp: starts_with_iff)
next
  case (Cons c cs)
  show ?case
  proof
    assume "str_in needle (c # cs)"
    then consider "starts_with (c # cs) needle" | "str_in needle cs" by auto
    then show "\<exists>before rest. c # cs = before @ needle @ rest"
    proof cases
      case 1
      then obtain r where "c # cs = needle @ r" by (auto simp: starts_with_iff)
      then have "c # cs = [] @ needle @ r" by simp
      then show ?thesis by blast
    next
      case 2
      then obtain b r where "cs = b @ needle @ r" using Cons.IH by auto
      then have "c # cs = (c # b) @ needle @ r" by simp
      then show ?thesis by blast
    qed
  next
    assume "\<exists>before rest. c # cs = before @ needle @ rest"
    then obtain b r where br: "c # cs = b @ needle @ r" by auto
    show "str_in needle (c # cs)"
    proof (cases b)
      case Nil
      then have "\<exists>r'. c # cs = needle @ r'" using br by auto
      then have "starts_with (c # cs) needle" by (simp only: starts_with_iff)
      then show ?thesis by simp
    next
      case (Cons x xs)
      then have "cs = xs @ needle @ r" using br by simp
      then show ?thesis using Cons.IH by auto
    qed
  qed
qed

lemma lower_append_iff:
  "lower s = a @ b \<longleftrightarrow> (\<exists>a' b'. s = a' @ b' \<and> lower a' = a \<and> lower b' = b)"
  by (auto simp: lower_def map_eq_append_conv)

lemma timeout_in_lower:
  "str_in ''timeout'' (lower s)
     \<longleftrightarrow> (\<exists>before w rest. s = before @ w @ rest \<and> lower w = ''timeout'')"
proof
  assume "str_in ''timeout'' (lower s)"
  then obtain b r where "lower s = b @ ''timeout'' @ r" by (auto simp: str_in_iff)
  then obtain b' x where x: "s = b' @ x" "lower x = ''timeout'' @ r"
    using lower_append_iff [of s b "''timeout'' @ r"] by blast
  then obtain w r' where "x = w @ r'" "lower w = ''timeout''"
    using lower_append_iff [of x "''timeout''" r] by blast
  then show "\<exists>before w rest. s = before @ w @ rest \<and> lower w = ''timeout''"
    using x by blast
next
  assume "\<exists>before w rest. s = before @ w @ rest \<and> lower w = ''timeout''"
  then obtain b w r where "s = b @ w @ r" "lower w = ''timeout''" by auto
  then have "lower s = lower b @ ''timeout'' @ lower r" by (simp add: lower_def)
  then show "str_in ''timeout'' (lower s)" unfolding str_in_iff by blast
qed

lemma match_here_lits:
  "match_here (map Lit w @ ts) s
     \<longleftrightarrow> (\<exists>w' r. s = w' @ r \<and> lower w' = lower w \<and> match_here ts r)"
proof (induction w arbitrary: s)
  case Nil
  show ?case by (simp add: lower_def)
next
  case (Cons c w)
  show ?case
  proof (cases s)
    case Nil
    then show ?thesis by (simp add: lower_def)
  next
    case (Cons x xs)
    show ?thesis
    proof
      assume "match_here (map Lit (c # w) @ ts) s"
      then have h: "ascii_lower x = ascii_lower c" "match_here (map Lit w @ ts) xs"
        using Cons by simp_all
      then obtain w' r where "xs = w' @ r" "lower w' = lower w" "match_here ts r"
        using Cons.IH by blast
      then have "s = (x # w') @ r \<and> lower (x # w') = lower (c # w) \<and> match_here ts r"
        using Cons h by (simp add: lower_def)
      then show "\<exists>w' r. s = w' @ r \<and> lower w' = lower (c # w) \<and> match_here ts r"
        by blast
    next
      assume "\<exists>w' r. s = w' @ r \<and> lower w' = lower (c # w) \<and> match_here ts r"
      then obtain w' r where h: "s = w' @ r" "lower w' = lower (c # w)" "match_here ts r"
        by auto
      then obtain y ys where w': "w' = y # ys" by (cases w') (auto simp: lower_def)
      then have "x = y" "xs = ys @ r" "ascii_lower y = ascii_lower c" "lower ys = lower w"
        using h Cons by (simp_all add: lower_def)
      then show "match_here (map Lit (c # w) @ ts) s"
        using Cons Cons.IH h(3) by auto
    qed
  qed
qed

lemma match_here_optany:
  "match_here (OptAny # ts) s
     \<longleftrightarrow> (\<exists>sep r. s = sep @ r \<and> length sep \<le> 1 \<and> CHR 0x0A \<notin> set sep \<and> match_here ts r)"
proof
  assume m: "match_here (OptAny # ts) s"
  show "\<exists>sep r. s = sep @ r \<and> length sep \<le> 1 \<and> CHR 0x0A \<notin> set sep \<and> match_here ts r"
  proof (cases "match_here ts s")
    case True
    then have "s = [] @ s \<and> length ([]::string) \<le> 1 \<and> CHR 0x0A \<notin> set [] \<and> match_here ts s"
      by simp
    then show ?thesis by blast
  next
    case False
    then obtain x xs where "s = x # xs" "x \<noteq> CHR 0x0A" "match_here ts xs"
      using m by (cases s) auto
    then have "s = [x] @ xs \<and> length [x] \<le> 1 \<and> CHR 0x0A \<notin> set [x] \<and> match_here ts xs"
      by simp
    then show ?thesis by blast
  qed
next
  assume "\<exists>sep r. s = sep @ r \<and> length sep \<le> 1 \<and> CHR 0x0A \<notin> set sep \<and> match_here ts r"
  then obtain sep r where h: "s = sep @ r" "length sep \<le> 1" "CHR 0x0A \<notin> set sep"
    "match_here ts r" by auto
  show "match_here (OptAny # ts) s"
  proof (cases sep)
    case Nil
    then show ?thesis using h by simp
  next
    case (Cons x xs)
    then have "xs = []" using h(2) by simp
    then show ?thesis using h Cons by simp
  qed
qed

lemma match_here_phrase: "match_here (phrase ws) s \<longleftrightarrow> words_match ws s"
proof (induction ws arbitrary: s rule: phrase.induct)
  case 1
  show ?case by simp
next
  case (2 w)
  show ?case using match_here_lits [of w "[]" s] by simp
next
  case (3 w v ws)
  have "match_here (phrase (w # v # ws)) s
      \<longleftrightarrow> (\<exists>w' r. s = w' @ r \<and> lower w' = lower w \<and> match_here (OptAny # phrase (v # ws)) r)"
    using match_here_lits [of w "OptAny # phrase (v # ws)" s] by simp
  also have "\<dots> \<longleftrightarrow> (\<exists>w' r. s = w' @ r \<and> lower w' = lower w
      \<and> (\<exists>sep r'. r = sep @ r' \<and> length sep \<le> 1 \<and> CHR 0x0A \<notin> set sep
            \<and> words_match (v # ws) r'))"
    using 3 by (simp only: match_here_optany)
  also have "\<dots> \<longleftrightarrow> words_match (w # v # ws) s"
    by (simp only: words_match.simps) blast
  finally show ?case .
qed

lemma re_search_iff:
  "re_search alts s \<longleftrightarrow> (\<exists>before rest. s = before @ rest \<and> (\<exists>a \<in> set alts. match_here a rest))"
proof (induction s)
  case Nil
  show ?case by (auto simp: list_ex_iff)
next
  case (Cons c cs)
  show ?case
  proof
    assume "re_search alts (c # cs)"
    then consider "\<exists>a \<in> set alts. match_here a (c # cs)" | "re_search alts cs"
      by (auto simp: list_ex_iff)
    then show "\<exists>before rest. c # cs = before @ rest \<and> (\<exists>a \<in> set alts. match_here a rest)"
    proof cases
      case 1
      then have "c # cs = [] @ (c # cs) \<and> (\<exists>a \<in> set alts. match_here a (c # cs))" by simp
      then show ?thesis by blast
    next
      case 2
      then obtain b r where "cs = b @ r" "\<exists>a \<in> set alts. match_here a r"
        using Cons.IH by auto
      then have "c # cs = (c # b) @ r \<and> (\<exists>a \<in> set alts. match_here a r)" by simp
      then show ?thesis by blast
    qed
  next
    assume "\<exists>before rest. c # cs = before @ rest \<and> (\<exists>a \<in> set alts. match_here a rest)"
    then obtain b r where br: "c # cs = b @ r" "\<exists>a \<in> set alts. match_here a r" by auto
    show "re_search alts (c # cs)"
    proof (cases b)
      case Nil
      then show ?thesis using br by (auto simp: list_ex_iff)
    next
      case (Cons x xs)
      then have "cs = xs @ r" using br by simp
      then have "re_search alts cs" using Cons.IH br(2) by blast
      then show ?thesis by simp
    qed
  qed
qed

lemma re_search_phrases: "re_search (map phrase phrases) s \<longleftrightarrow> mentions phrases s"
  by (simp add: re_search_iff mentions_def match_here_phrase)

lemma compiled_patterns:
  "isAuthError_re = map phrase auth_phrases"
  "isQuotaError_re = map phrase quota_phrases"
  "isBadRequest_re = map phrase bad_request_phrases"
  "isTransient_re = map phrase transient_phrases"
  by code_simp+

text \<open>
  Claim C6. \<open>classify_error\<close> applies the eight rules in their order, the first that
  matches deciding: finish reason SAFETY; finish reason RECITATION; a timeout (the
  dedicated type, or a message containing \<open>timeout\<close> in any letter case); status 403 or
  the auth pattern; status 429 or the quota pattern; status 400 or the bad-request
  pattern; status 500, 502, 503 or 504 or the transient pattern; otherwise UNKNOWN;
  each with the flags and cooldown of \<open>classify_spec\<close>.
\<close>

theorem classify_error_rules:
  "classify_error error finish_reason = classify_spec error finish_reason"
  by (simp add: classify_error_def classify_spec_def Let_def compiled_patterns
        re_search_phrases timeout_in_lower is_timeout_def verdict_def
        COOLDOWN_TRANSIENT_def COOLDOWN_QUOTA_def)

theorem classify_error_rules_witness:
  "classify_spec permission_denied_error None = verdict AUTH False 999999999 True True
   \<and> classify_spec timeout_with_403 None = verdict TIMEOUT True 60000 True False
   \<and> classify_spec rate_limit_with_400 None = verdict QUOTA True 300000 True False
   \<and> classify_spec timeout_with_403 (Some ''SAFETY'') = verdict SAFETY False 0 False False
   \<and> classify_spec (MockError 502) None = verdict TRANSIENT True 60000 True False
   \<and> classify_spec (MockError 418) None = verdict UNKNOWN True 60000 True False"
proof -
  have a: "classify_error permission_denied_error None = verdict AUTH False 999999999 True True"
    by code_simp
  have b: "classify_error timeout_with_403 None = verdict TIMEOUT True 60000 True False"
    by code_simp
  have c: "classify_error rate_limit_with_400 None = verdict QUOTA True 300000 True False"
    by code_simp
  have d: "classify_error timeout_with_403 (Some ''SAFETY'') = verdict SAFETY False 0 False False"
    by code_simp
  have e: "classify_error (MockError 502) None = verdict TRANSIENT True 60000 True False"
    by code_simp
  have f: "classify_error (MockError 418) None = verdict UNKNOWN True 60000 True False"
    by code_simp
  show ?thesis
    using classify_error_rules [of permission_denied_error None]
      classify_error_rules [of timeout_with_403 None]
      classify_error_rules [of rate_limit_with_400 None]
      classify_error_rules [of timeout_with_403 "Some ''SAFETY''"]
      classify_error_rules [of "MockError 502" None]
      classify_error_rules [of "MockError 418" None]
    by (simp add: a b c d e f)
qed

section \<open>Backoff\<close>

lemma attempt_once_sleeps:
  assumes "attempt_once env fn options a m = (Continue e, m')"
  shows "\<exists>k m5. events m' = events (snd (calculate_backoff env a m5))
                      @ [Retry k (a + 1) (fst (calculate_backoff env a m5))]
              \<and> calls m' = calls m @ [FnCall k, SleepCall (fst (calculate_backoff env a m5) / 1000)]"
proof -
  obtain sel m1 where s: "select_key env options m = (sel, m1)" by force
  have c1: "calls m1 = calls m" using s by (rule calls_select_key)
  show ?thesis
  proof (cases "truthy_str sel")
    case False
    then show ?thesis
      using assms by (auto simp: attempt_once_def s split: prod.splits)
  next
    case True
    then obtain k where k: "sel = Some k" by (cases sel) (auto simp: truthy_str_def)
    let ?m2 = "m1\<lparr>ticks := Suc (ticks m1)\<rparr>"
    let ?bound = "if truthy (timeoutMs options) then timeoutMs options else None"
    let ?m3 = "?m2\<lparr>calls := calls ?m2 @ [FnCall k]\<rparr>"
    obtain raised where out: "fn (fn_count (calls m1)) k ?bound = Raises raised"
      using assms True k
      by (cases "fn (fn_count (calls m1)) k ?bound")
         (auto simp: attempt_once_def s Let_def time_ms_def split: prod.splits)
    let ?e = "if exn_class raised = AsyncioTimeoutError
              then TimeoutError (timeoutMs options) else raised"
    let ?m5 = "emit (ExecuteFailed k ?e)
                 (mark_failed env k (classify_error ?e (finishReason options)) ?m3)"
    have m': "m' = (emit (Retry k (a + 1) (fst (calculate_backoff env a ?m5)))
                      (snd (calculate_backoff env a ?m5)))
                   \<lparr>calls := calls ?m5 @ [SleepCall (fst (calculate_backoff env a ?m5) / 1000)]\<rparr>"
      using assms True k out
      by (auto simp: attempt_once_def s Let_def time_ms_def calculate_backoff_def emit_def
            invoke_fallback_def
            split: prod.splits option.splits if_splits Outcome.splits)
    have "events m' = events (snd (calculate_backoff env a ?m5))
                      @ [Retry k (a + 1) (fst (calculate_backoff env a ?m5))]
          \<and> calls m' = calls m @ [FnCall k, SleepCall (fst (calculate_backoff env a ?m5) / 1000)]"
      unfolding m' using c1 by (simp add: emit_def calculate_backoff_def Let_def)
    then show ?thesis by blast
  qed
qed

text \<open>
  Claim C9. For every attempt number \<open>a \<ge> 0\<close> and every jitter draw between 0 and 1000,
  \<open>calculate_backoff(a)\<close> is \<open>min(1000 * 2^a, 64000)\<close> plus the draw, so the delay lies
  between \<open>min(1000 * 2^a, 64000)\<close> and \<open>min(1000 * 2^a, 64000) + 1000\<close> milliseconds;
  and an iteration of the retry loop that goes on to the next one sleeps for such a
  delay, right after its one call of \<open>fn\<close>.
\<close>

theorem calculate_backoff_bounds:
  assumes "0 \<le> a"
    and "\<forall>n. 0 \<le> random_uniform env n 0 1000 \<and> random_uniform env n 0 1000 \<le> 1000"
  shows "fst (calculate_backoff env a m)
           = min (1000 * 2 ^ nat a) 64000 + random_uniform env (draws m) 0 1000
       \<and> min (1000 * 2 ^ nat a) 64000 \<le> fst (calculate_backoff env a m)
       \<and> fst (calculate_backoff env a m) \<le> min (1000 * 2 ^ nat a) 64000 + 1000
       \<and> (\<forall>e m'. attempt_once env fn options a m = (Continue e, m') \<longrightarrow>
             (\<exists>k d. calls m' = calls m @ [FnCall k, SleepCall (d / 1000)]
                    \<and> min (1000 * 2 ^ nat a) 64000 \<le> d
                    \<and> d \<le> min (1000 * 2 ^ nat a) 64000 + 1000))"
proof -
  have b: "\<And>x. fst (calculate_backoff env a x)
                 = min (1000 * 2 ^ nat a) 64000 + random_uniform env (draws x) 0 1000"
    using assms(1)
    by (simp add: calculate_backoff_def BASE_BACKOFF_def MAX_BACKOFF_def Let_def power_int_def)
  have r: "\<And>x. min (1000 * 2 ^ nat a) 64000 \<le> fst (calculate_backoff env a x)
               \<and> fst (calculate_backoff env a x) \<le> min (1000 * 2 ^ nat a) 64000 + 1000"
    using assms(2) by (simp add: b)
  have l: "\<And>e m'. attempt_once env fn options a m = (Continue e, m') \<Longrightarrow>
             \<exists>k d. calls m' = calls m @ [FnCall k, SleepCall (d / 1000)]
                    \<and> min (1000 * 2 ^ nat a) 64000 \<le> d
                    \<and> d \<le> min (1000 * 2 ^ nat a) 64000 + 1000"
  proof -
    fix e m'
    assume "attempt_once env fn options a m = (Continue e, m')"
    then obtain k m5 where
      "calls m' = calls m @ [FnCall k, SleepCall (fst (calculate_backoff env a m5) / 1000)]"
      using attempt_once_sleeps by blast
    then show "\<exists>k d. calls m' = calls m @ [FnCall k, SleepCall (d / 1000)]
                    \<and> min (1000 * 2 ^ nat a) 64000 \<le> d
                    \<and> d \<le> min (1000 * 2 ^ nat a) 64000 + 1000"
      using r [of m5] by blast
  qed
  show ?thesis using b r l by blast
qed

theorem calculate_backoff_bounds_witness:
  "fst (calculate_backoff example_env 3 one_key) = 8500
   \<and> fst (calculate_backoff example_env 7 one_key) = 64500
   \<and> (\<exists>k d. calls (snd (attempt_once example_env (always_raises (MockError 500))
                            two_retries 0 one_key))
                = [FnCall k, SleepCall (d / 1000)]
              \<and> 1000 \<le> d \<and> d \<le> 2000)"
proof -
  have j: "\<forall>n. 0 \<le> random_uniform example_env n 0 1000
               \<and> random_uniform example_env n 0 1000 \<le> 1000"
    by (simp add: example_env_def)
  have c: "attempt_once example_env (always_raises (MockError 500)) two_retries 0 one_key
      = (Continue (MockError 500),
         snd (attempt_once example_env (always_raises (MockError 500)) two_retries 0 one_key))"
    by code_simp
  have e: "calls one_key = []" by code_simp
  have z: "(0::int) \<le> 0" "(0::int) \<le> 3" "(0::int) \<le> 7" by simp_all
  show ?thesis
    using calculate_backoff_bounds [OF z(2) j, of one_key "always_raises (MockError 500)" two_retries]
      calculate_backoff_bounds [OF z(3) j, of one_key "always_raises (MockError 500)" two_retries]
      calculate_backoff_bounds [OF z(1) j, of one_key "always_raises (MockError 500)" two_retries]
      c
    by (simp add: e example_env_def)
qed

end
